theory Spec2Isabelle
  imports Complex_Main "HOL-Library.AList"
begin

section \<open>Data model\<close>

text \<open>
  Nodes are Python strings.  A Python \<open>dict\<close> keeps its keys in insertion order,
  and the breadth-first search iterates over \<open>res[u].items()\<close>, so a dictionary is an
  association list: \<^const>\<open>map_of\<close> reads a key, \<^const>\<open>AList.update\<close> overwrites the
  value of a present key in place and appends an absent key at the end, exactly as an
  assignment \<open>d[k] = v\<close> does.
\<close>

type_synonym node = string

type_synonym 'v dict = "(node \<times> 'v) list"

type_synonym graph = "(int dict) dict"

datatype error = ValueError | KeyError node | OverflowError

definition keys :: "'v dict \<Rightarrow> node list" where
  "keys d = map fst d"

text \<open>\<open>d.setdefault(k, v)\<close>: a present key is left alone, an absent one is appended.\<close>

definition setdefault :: "node \<Rightarrow> 'v \<Rightarrow> 'v dict \<Rightarrow> 'v dict" where
  "setdefault k v d = (case map_of d k of None \<Rightarrow> d @ [(k, v)] | Some _ \<Rightarrow> d)"

text \<open>\<open>d[u][v]\<close> as a lookup that may miss at either level.\<close>

definition get2 :: "graph \<Rightarrow> node \<Rightarrow> node \<Rightarrow> int option" where
  "get2 g u v = (case map_of g u of None \<Rightarrow> None | Some row \<Rightarrow> map_of row v)"

text \<open>A well-formed dictionary of dictionaries has no repeated key at either level.\<close>

definition wf_dict2 :: "graph \<Rightarrow> bool" where
  "wf_dict2 g \<longleftrightarrow> distinct (keys g) \<and> list_all (\<lambda>(u, row). distinct (keys row)) g"

section \<open>The capacitated graph: class \<open>MaxFlow\<close>\<close>

record MaxFlow =
  graph :: graph
  nodes :: "node set"

definition init :: MaxFlow where
  "init = \<lparr>graph = [], nodes = {}\<rparr>"

text \<open>
  \<open>add_edge(u, v, c)\<close>.  The state is threaded explicitly, so that a raise returns the
  state it leaves behind.  \<open>self.graph\<close> is a \<open>defaultdict(dict)\<close>: reading
  \<open>self.graph[u]\<close> on the right-hand side creates an empty row for an absent \<open>u\<close>
  before the assignment writes into that row.
\<close>

definition add_edge :: "node \<Rightarrow> node \<Rightarrow> int \<Rightarrow> MaxFlow \<Rightarrow> (error + unit) \<times> MaxFlow" where
  "add_edge u v c mf =
     (if c < 0 then (Inl ValueError, mf)
      else
        let ns = insert v (insert u (nodes mf));
            g1 = setdefault u [] (graph mf);
            row = (case map_of g1 u of None \<Rightarrow> [] | Some r \<Rightarrow> r);
            old = (case map_of row v of None \<Rightarrow> 0 | Some x \<Rightarrow> x);
            g2 = AList.update u (AList.update v (old + c) row) g1;
            g3 = setdefault v [] g2
        in (Inr (), \<lparr>graph = g3, nodes = ns\<rparr>))"

text \<open>Two calls in sequence; the second runs only when the first did not raise.\<close>

definition add_edge_twice :: "node \<Rightarrow> node \<Rightarrow> int \<Rightarrow> int \<Rightarrow> MaxFlow \<Rightarrow> (error + unit) \<times> MaxFlow" where
  "add_edge_twice u v c1 c2 mf =
     (case add_edge u v c1 mf of
        (Inl e, mf1) \<Rightarrow> (Inl e, mf1)
      | (Inr _, mf1) \<Rightarrow> add_edge u v c2 mf1)"

text \<open>The capacity of an edge, and how many entries the graph holds for an ordered pair.\<close>

definition cap :: "graph \<Rightarrow> node \<Rightarrow> node \<Rightarrow> int" where
  "cap g u v = (case get2 g u v of None \<Rightarrow> 0 | Some c \<Rightarrow> c)"

definition edge_list :: "graph \<Rightarrow> (node \<times> node) list" where
  "edge_list g = concat (map (\<lambda>(u, row). map (\<lambda>(v, c). (u, v)) row) g)"

definition edge_count :: "graph \<Rightarrow> node \<Rightarrow> node \<Rightarrow> nat" where
  "edge_count g u v = count_list (edge_list g) (u, v)"

section \<open>The residual graph: \<open>_build_residual\<close>\<close>

text \<open>
  \<open>res.setdefault(v, {}).setdefault(u, 0)\<close>: the row of \<open>v\<close> is created when absent,
  and the entry \<open>u\<close> of that row is set to 0 only when the row has no such entry.
\<close>

definition ensure_entry :: "node \<Rightarrow> node \<Rightarrow> graph \<Rightarrow> graph" where
  "ensure_entry v u res =
     (let res1 = setdefault v [] res;
          row = (case map_of res1 v of None \<Rightarrow> [] | Some r \<Rightarrow> r)
      in AList.update v (setdefault u 0 row) res1)"

text \<open>The inner loop \<open>for v in list(res[u].keys())\<close>, over the snapshot of the keys.\<close>

fun add_reverse :: "node \<Rightarrow> node list \<Rightarrow> graph \<Rightarrow> graph" where
  "add_reverse u [] res = res"
| "add_reverse u (v # vs) res = add_reverse u vs (ensure_entry v u res)"

text \<open>
  The outer loop \<open>for u in list(res.keys())\<close>, over the snapshot of the outer keys; the
  row \<open>res[u]\<close> is read when the loop reaches \<open>u\<close>, so it already holds the reverse
  entries that earlier iterations added.
\<close>

fun build_loop :: "node list \<Rightarrow> graph \<Rightarrow> error + graph" where
  "build_loop [] res = Inr res"
| "build_loop (u # us) res =
     (case map_of res u of
        None \<Rightarrow> Inl (KeyError u)
      | Some row \<Rightarrow> build_loop us (add_reverse u (keys row) res))"

definition build_residual :: "MaxFlow \<Rightarrow> error + graph" where
  "build_residual mf = build_loop (keys (graph mf)) (graph mf)"

section \<open>The augmenting-path search: \<open>_bfs_augment\<close>\<close>

type_synonym parent_map = "(node option) dict"

record PathResult =
  bottleneck :: int
  parent :: parent_map

text \<open>
  The \<open>for v, cap in res[u].items()\<close> loop of one dequeued node \<open>u\<close>.  The flag of the
  result tells whether the loop left through the \<open>if v == t\<close> branch.
\<close>

fun scan :: "node \<Rightarrow> node \<Rightarrow> int dict \<Rightarrow> parent_map \<Rightarrow> node list \<Rightarrow> parent_map \<times> node list \<times> bool" where
  "scan u t [] par q = (par, q, False)"
| "scan u t ((v, c) # items) par q =
     (if map_of par v = None \<and> c > 0 then
        (let par' = AList.update v (Some u) par
         in if v = t then (par', q, True) else scan u t items par' (q @ [v]))
      else scan u t items par q)"

text \<open>The \<open>while q\<close> loop; \<open>res[u]\<close> raises \<open>KeyError\<close> on an absent row.\<close>

function bfs_loop :: "graph \<Rightarrow> node \<Rightarrow> parent_map \<Rightarrow> node list \<Rightarrow> error + parent_map option" where
  "bfs_loop res t par [] = Inr None"
| "bfs_loop res t par (u # q) =
     (case map_of res u of
        None \<Rightarrow> Inl (KeyError u)
      | Some items \<Rightarrow>
          (case scan u t items par q of
             (par', q', True) \<Rightarrow> Inr (Some par')
           | (par', q', False) \<Rightarrow> bfs_loop res t par' q'))"
  by pat_completeness auto

text \<open>
  The bottleneck starts at \<open>float("inf")\<close> and becomes an integer at the first edge;
  \<open>int(bottleneck)\<close> raises \<open>OverflowError\<close> on infinity.
\<close>

datatype bound = Inf | Fin int

fun min_bound :: "bound \<Rightarrow> int \<Rightarrow> bound" where
  "min_bound Inf c = Fin c"
| "min_bound (Fin m) c = Fin (min m c)"

text \<open>
  The walk \<open>while parent[x] is not None\<close> back along the predecessors.  Nothing in the
  loop itself bounds it (a cyclic predecessor map would never leave it), so not
  returning is the value \<open>None\<close>.
\<close>

partial_function (option) walk_bottleneck :: "graph \<Rightarrow> parent_map \<Rightarrow> node \<Rightarrow> bound \<Rightarrow> (error + bound) option" where
  "walk_bottleneck res par x b =
     (case map_of par x of
        None \<Rightarrow> Some (Inl (KeyError x))
      | Some None \<Rightarrow> Some (Inr b)
      | Some (Some p) \<Rightarrow>
          (case map_of res p of
             None \<Rightarrow> Some (Inl (KeyError p))
           | Some row \<Rightarrow>
               (case map_of row x of
                  None \<Rightarrow> Some (Inl (KeyError x))
                | Some c \<Rightarrow> walk_bottleneck res par p (min_bound b c))))"

definition bfs_augment :: "graph \<Rightarrow> node \<Rightarrow> node \<Rightarrow> (error + PathResult option) option" where
  "bfs_augment res s t =
     (case bfs_loop res t [(s, None)] [s] of
        Inl e \<Rightarrow> Some (Inl e)
      | Inr None \<Rightarrow> Some (Inr None)
      | Inr (Some par) \<Rightarrow>
          (case walk_bottleneck res par t Inf of
             None \<Rightarrow> None
           | Some (Inl e) \<Rightarrow> Some (Inl e)
           | Some (Inr Inf) \<Rightarrow> Some (Inl OverflowError)
           | Some (Inr (Fin m)) \<Rightarrow> Some (Inr (Some \<lparr>bottleneck = m, parent = par\<rparr>))))"

section \<open>The solver: \<open>edmonds_karp\<close>\<close>

text \<open>\<open>residual[u][v] += d\<close>: both lookups raise \<open>KeyError\<close> on an absent key.\<close>

definition adjust :: "graph \<Rightarrow> node \<Rightarrow> node \<Rightarrow> int \<Rightarrow> error + graph" where
  "adjust res u v d =
     (case map_of res u of
        None \<Rightarrow> Inl (KeyError u)
      | Some row \<Rightarrow>
          (case map_of row v of
             None \<Rightarrow> Inl (KeyError v)
           | Some c \<Rightarrow> Inr (AList.update u (AList.update v (c + d) row) res)))"

text \<open>Step 3 of the loop body: the walk from \<open>t\<close> that updates the residual capacities.\<close>

partial_function (option) push_flow :: "parent_map \<Rightarrow> int \<Rightarrow> node \<Rightarrow> graph \<Rightarrow> (error + graph) option" where
  "push_flow par aug v residual =
     (case map_of par v of
        None \<Rightarrow> Some (Inl (KeyError v))
      | Some None \<Rightarrow> Some (Inr residual)
      | Some (Some u) \<Rightarrow>
          (case adjust residual u v (- aug) of
             Inl e \<Rightarrow> Some (Inl e)
           | Inr r1 \<Rightarrow>
               (case adjust r1 v u aug of
                  Inl e \<Rightarrow> Some (Inl e)
                | Inr r2 \<Rightarrow> push_flow par aug u r2)))"

text \<open>The \<open>while True\<close> loop.\<close>

partial_function (option) augment_loop :: "node \<Rightarrow> node \<Rightarrow> graph \<Rightarrow> int \<Rightarrow> (error + int \<times> graph) option" where
  "augment_loop s t residual total_flow =
     (case bfs_augment residual s t of
        None \<Rightarrow> None
      | Some (Inl e) \<Rightarrow> Some (Inl e)
      | Some (Inr None) \<Rightarrow> Some (Inr (total_flow, residual))
      | Some (Inr (Some res_path)) \<Rightarrow>
          (case push_flow (parent res_path) (bottleneck res_path) t residual of
             None \<Rightarrow> None
           | Some (Inl e) \<Rightarrow> Some (Inl e)
           | Some (Inr residual') \<Rightarrow>
               augment_loop s t residual' (total_flow + bottleneck res_path)))"

text \<open>
  Step 4: the flow matrix, a \<open>defaultdict(dict)\<close>, filled edge by edge with
  \<open>used if used > 0 else 0\<close>.
\<close>

fun flow_row :: "node \<Rightarrow> int dict \<Rightarrow> graph \<Rightarrow> graph \<Rightarrow> error + graph" where
  "flow_row u [] residual fm = Inr fm"
| "flow_row u ((v, cap0) # row) residual fm =
     (case map_of residual u of
        None \<Rightarrow> Inl (KeyError u)
      | Some r \<Rightarrow>
          (case map_of r v of
             None \<Rightarrow> Inl (KeyError v)
           | Some cap_res \<Rightarrow>
               (let used = cap0 - cap_res;
                    fm1 = setdefault u [] fm;
                    frow = (case map_of fm1 u of None \<Rightarrow> [] | Some x \<Rightarrow> x)
                in flow_row u row residual
                     (AList.update u (AList.update v (if used > 0 then used else 0) frow) fm1))))"

fun flow_rows :: "graph \<Rightarrow> graph \<Rightarrow> graph \<Rightarrow> error + graph" where
  "flow_rows [] residual fm = Inr fm"
| "flow_rows ((u, row) # g) residual fm =
     (case flow_row u row residual fm of
        Inl e \<Rightarrow> Inl e
      | Inr fm' \<Rightarrow> flow_rows g residual fm')"

definition edmonds_karp :: "MaxFlow \<Rightarrow> node \<Rightarrow> node \<Rightarrow> (error + int \<times> graph \<times> graph) option" where
  "edmonds_karp mf s t =
     (case build_residual mf of
        Inl e \<Rightarrow> Some (Inl e)
      | Inr residual \<Rightarrow>
          (case augment_loop s t residual 0 of
             None \<Rightarrow> None
           | Some (Inl e) \<Rightarrow> Some (Inl e)
           | Some (Inr (total_flow, residual')) \<Rightarrow>
               (case flow_rows (graph mf) residual' [] of
                  Inl e \<Rightarrow> Some (Inl e)
                | Inr flow_matrix \<Rightarrow> Some (Inr (total_flow, flow_matrix, residual')))))"

text \<open>The loops defined as least fixed points are run by their unfolding equations.\<close>

declare walk_bottleneck.simps [code]

declare push_flow.simps [code]

declare augment_loop.simps [code]

section \<open>The proportional decomposition of \<open>build_and_run\<close>\<close>

text \<open>
  The proportional decomposition of \<open>build_and_run\<close> (the part after the solver call),
  with the network literals of the source as parameters: \<open>terminals\<close> and \<open>warehouses\<close>
  are the lists of upstream and mid-tier nodes, \<open>edges_T_S\<close> and \<open>edges_S_M\<close> the
  dictionaries keyed by pairs.  Python's \<open>float\<close> is modelled by \<open>real\<close>: the claim about
  this code is stated in exact real arithmetic.

  \<open>d[u][v] = x\<close> on a \<open>defaultdict\<close> of dictionaries creates the row of \<open>u\<close> when it is
  absent.
\<close>

definition put2 :: "node \<Rightarrow> node \<Rightarrow> 'v \<Rightarrow> ('v dict) dict \<Rightarrow> ('v dict) dict" where
  "put2 u v x d =
     (let d1 = setdefault u [] d;
          row = (case map_of d1 u of None \<Rightarrow> [] | Some r \<Rightarrow> r)
      in AList.update u (AList.update v x row) d1)"

text \<open>\<open>terminal_store_flow[t][m]\<close>, read with the default \<open>0.0\<close> of the \<open>defaultdict(float)\<close>.\<close>

definition entry :: "(real dict) dict \<Rightarrow> node \<Rightarrow> node \<Rightarrow> real" where
  "entry tbl t m = (case map_of tbl t of None \<Rightarrow> 0
                    | Some row \<Rightarrow> (case map_of row m of None \<Rightarrow> 0 | Some x \<Rightarrow> x))"

text \<open>
  \<open>in_T_to_S[s][t] = flow_matrix.get(t, {}).get(s, 0)\<close> for every key \<open>(t, s)\<close> of
  \<open>edges_T_S\<close>, and \<open>out_S_to_M[s][m] = flow_matrix.get(s, {}).get(m, 0)\<close> for every key
  \<open>(s, m)\<close> of \<open>edges_S_M\<close>.
\<close>

definition in_T_to_S :: "((node \<times> node) \<times> int) list \<Rightarrow> graph \<Rightarrow> graph" where
  "in_T_to_S edges_T_S flow_matrix =
     foldl (\<lambda>d ((t, s), c). put2 s t (cap flow_matrix t s) d) [] edges_T_S"

definition out_S_to_M :: "((node \<times> node) \<times> int) list \<Rightarrow> graph \<Rightarrow> graph" where
  "out_S_to_M edges_S_M flow_matrix =
     foldl (\<lambda>d ((s, m), c). put2 s m (cap flow_matrix s m) d) [] edges_S_M"

text \<open>\<open>in_total_S[s] = sum(in_T_to_S[s].values())\<close>.\<close>

definition in_total_S :: "graph \<Rightarrow> node \<Rightarrow> int" where
  "in_total_S ins s = (case map_of ins s of None \<Rightarrow> 0 | Some row \<Rightarrow> sum_list (map snd row))"

text \<open>\<open>shares = {t: in_T_to_S[s].get(t, 0) / total_in for t in terminals}\<close>.\<close>

definition shares :: "node list \<Rightarrow> graph \<Rightarrow> node \<Rightarrow> int \<Rightarrow> real dict" where
  "shares terminals ins s total_in =
     foldl (\<lambda>d t. AList.update t (real_of_int (cap ins s t) / real_of_int total_in) d) [] terminals"

text \<open>The innermost loop \<open>for t, sh in shares.items(): terminal_store_flow[t][m] += flow_sm * sh\<close>.\<close>

fun credit :: "node \<Rightarrow> int \<Rightarrow> real dict \<Rightarrow> (real dict) dict \<Rightarrow> (real dict) dict" where
  "credit m flow_sm [] tbl = tbl"
| "credit m flow_sm ((t, sh) # rest) tbl =
     credit m flow_sm rest (put2 t m (entry tbl t m + real_of_int flow_sm * sh) tbl)"

text \<open>The loop \<open>for m, flow_sm in out_S_to_M[s].items()\<close>, which skips a zero flow.\<close>

fun spread :: "int dict \<Rightarrow> real dict \<Rightarrow> (real dict) dict \<Rightarrow> (real dict) dict" where
  "spread [] sh tbl = tbl"
| "spread ((m, flow_sm) # row) sh tbl =
     (if flow_sm = 0 then spread row sh tbl else spread row sh (credit m flow_sm sh tbl))"

text \<open>One iteration of \<open>for s in warehouses\<close>.\<close>

definition attribute_warehouse :: "node list \<Rightarrow> graph \<Rightarrow> graph \<Rightarrow> node \<Rightarrow> (real dict) dict \<Rightarrow> (real dict) dict" where
  "attribute_warehouse terminals ins outs s tbl =
     (let total_in = in_total_S ins s
      in if total_in = 0 then tbl
         else spread (case map_of outs s of None \<Rightarrow> [] | Some r \<Rightarrow> r)
                (shares terminals ins s total_in) tbl)"

text \<open>
  The whole loop \<open>for s in warehouses\<close>, started on the empty table.  (The source
  computes \<open>in_total_S\<close> for all warehouses before the loop; reading \<open>in_T_to_S[s]\<close>
  there creates an empty row for a warehouse without one, which changes no value that is
  read later.)
\<close>

definition decompose :: "node list \<Rightarrow> node list \<Rightarrow> ((node \<times> node) \<times> int) list \<Rightarrow> ((node \<times> node) \<times> int) list
    \<Rightarrow> graph \<Rightarrow> (real dict) dict" where
  "decompose terminals warehouses edges_T_S edges_S_M flow_matrix =
     foldl (\<lambda>tbl s. attribute_warehouse terminals (in_T_to_S edges_T_S flow_matrix)
                       (out_S_to_M edges_S_M flow_matrix) s tbl) [] warehouses"

section \<open>The states of the augmenting loop\<close>

text \<open>
  The states of the \<open>while True\<close> loop of \<open>edmonds_karp\<close>, as pairs of \<open>total_flow\<close> and
  \<open>residual\<close>: the state before the first iteration, and the state that one iteration
  (a successful search followed by the update of the residual capacities) leaves.
\<close>

inductive loop_state :: "node \<Rightarrow> node \<Rightarrow> graph \<Rightarrow> int \<times> graph \<Rightarrow> bool" for s t res0 where
  loop_start: "loop_state s t res0 (0, res0)"
| loop_step: "loop_state s t res0 (tf, res) \<Longrightarrow> bfs_augment res s t = Some (Inr (Some pr))
     \<Longrightarrow> push_flow (parent pr) (bottleneck pr) t res = Some (Inr res')
     \<Longrightarrow> loop_state s t res0 (tf + bottleneck pr, res')"

section \<open>Notions of the specification\<close>

text \<open>
  The nodes of a graph: the keys of the outer dictionary and the keys of its rows, that
  is, every endpoint of an edge.
\<close>

definition inner_keys :: "graph \<Rightarrow> node set" where
  "inner_keys res = (\<Union>(u, row) \<in> set res. set (keys row))"

definition graph_nodes :: "graph \<Rightarrow> node set" where
  "graph_nodes g = set (keys g) \<union> inner_keys g"

text \<open>
  A capacitated graph with non-negative integer capacities: a dictionary of dictionaries
  (no key repeated) whose values are not negative.  Every graph that \<open>add_edge\<close> builds
  is one.
\<close>

definition nonneg_caps :: "graph \<Rightarrow> bool" where
  "nonneg_caps g = list_all (\<lambda>(u, row). list_all (\<lambda>(v, c). 0 \<le> c) row) g"

definition valid_graph :: "graph \<Rightarrow> bool" where
  "valid_graph g \<longleftrightarrow> wf_dict2 g \<and> nonneg_caps g"

text \<open>
  The total outflow of a node in a flow matrix, the sum of \<open>flow_matrix[n][v]\<close> over all
  \<open>v\<close>, and its total inflow, the sum of \<open>flow_matrix[u][n]\<close> over all \<open>u\<close>.
\<close>

definition outflow :: "graph \<Rightarrow> node \<Rightarrow> int" where
  "outflow fm n = (case map_of fm n of None \<Rightarrow> 0 | Some row \<Rightarrow> sum_list (map snd row))"

definition inflow :: "graph \<Rightarrow> node \<Rightarrow> int" where
  "inflow fm n = sum_list (map (\<lambda>(u, row). case map_of row n of None \<Rightarrow> 0 | Some f \<Rightarrow> f) fm)"

text \<open>
  The notions of the max-flow/min-cut contract, as the spec words them.  A cut is a set of
  nodes that holds the source and not the sink; its capacity is the sum of the capacities
  of the edges that leave it.  A feasible flow assigns to every ordered pair of nodes a
  real number between 0 and the capacity of the edge (0 when there is none) and conserves
  flow at every node other than the source and the sink; its value is the net flow out
  of the source.
\<close>

definition is_cut :: "graph \<Rightarrow> node \<Rightarrow> node \<Rightarrow> node set \<Rightarrow> bool" where
  "is_cut g s t S \<longleftrightarrow> S \<subseteq> graph_nodes g \<and> s \<in> S \<and> t \<notin> S"

definition cut_capacity :: "graph \<Rightarrow> node set \<Rightarrow> int" where
  "cut_capacity g S = (\<Sum>u \<in> S. \<Sum>v \<in> graph_nodes g - S. cap g u v)"

definition feasible_flow :: "graph \<Rightarrow> node \<Rightarrow> node \<Rightarrow> (node \<Rightarrow> node \<Rightarrow> real) \<Rightarrow> bool" where
  "feasible_flow g s t f \<longleftrightarrow>
     (\<forall>u v. 0 \<le> f u v \<and> f u v \<le> real_of_int (cap g u v))
     \<and> (\<forall>n. n \<in> graph_nodes g \<and> n \<noteq> s \<and> n \<noteq> t
            \<longrightarrow> (\<Sum>u \<in> graph_nodes g. f u n) = (\<Sum>v \<in> graph_nodes g. f n v))"

definition flow_value :: "graph \<Rightarrow> node \<Rightarrow> (node \<Rightarrow> node \<Rightarrow> real) \<Rightarrow> real" where
  "flow_value g s f = (\<Sum>v \<in> graph_nodes g. f s v) - (\<Sum>u \<in> graph_nodes g. f u s)"

section \<open>Notions for the proofs\<close>

text \<open>The sum of the values of the row of \<open>u\<close> (0 when there is no such row).\<close>

definition row_sum :: "graph \<Rightarrow> node \<Rightarrow> int" where
  "row_sum res u = (case map_of res u of None \<Rightarrow> 0 | Some row \<Rightarrow> sum_list (map snd row))"

text \<open>The keys of the row of \<open>s\<close>, in their order.\<close>

definition row_keys :: "graph \<Rightarrow> node \<Rightarrow> node list" where
  "row_keys d s = (case map_of d s of None \<Rightarrow> [] | Some row \<Rightarrow> keys row)"

text \<open>
  The keys of a dictionary of dictionaries without the values: the augmenting loop
  changes values only.
\<close>

definition shape :: "graph \<Rightarrow> (node \<times> node list) list" where
  "shape res = map (\<lambda>(u, row). (u, keys row)) res"

text \<open>
  The invariant of the residual graph: no key is repeated, every entry has a reciprocal
  entry, and no residual capacity is negative.
\<close>

definition res_ok :: "graph \<Rightarrow> bool" where
  "res_ok res \<longleftrightarrow> wf_dict2 res \<and> (\<forall>u v. get2 res u v \<noteq> None \<longrightarrow> get2 res v u \<noteq> None)
     \<and> (\<forall>u v. 0 \<le> cap res u v)"

text \<open>A set of nodes that no edge of positive residual capacity leaves.\<close>

definition closed :: "graph \<Rightarrow> node set \<Rightarrow> bool" where
  "closed res P \<longleftrightarrow> (\<forall>w \<in> P. \<forall>v. 0 < cap res w v \<longrightarrow> v \<in> P)"

text \<open>
  The predecessor maps that the search builds, in the order of insertion: the source
  first, with no predecessor, and then nodes that are new, each with a predecessor
  that is already in the map and an edge of positive residual capacity from it.
\<close>

inductive bfs_tree :: "graph \<Rightarrow> node \<Rightarrow> parent_map \<Rightarrow> bool" for res s where
  tree_root: "bfs_tree res s [(s, None)]"
| tree_step: "bfs_tree res s par \<Longrightarrow> map_of par u \<noteq> None \<Longrightarrow> map_of par v = None \<Longrightarrow> 0 < cap res u v
     \<Longrightarrow> bfs_tree res s (par @ [(v, Some u)])"

text \<open>
  The walk along the predecessors, from \<open>x\<close> to the node without a predecessor, as the
  list of the nodes it visits.
\<close>

inductive chain :: "parent_map \<Rightarrow> node \<Rightarrow> node list \<Rightarrow> bool" for par where
  chain_root: "map_of par x = Some None \<Longrightarrow> chain par x [x]"
| chain_step: "map_of par x = Some (Some u) \<Longrightarrow> chain par u us \<Longrightarrow> chain par x (x # us)"

text \<open>
  Along such a list every edge \<open>(u, x)\<close> from a predecessor to its successor has residual
  capacity at least \<open>m\<close>; and the minimum of these capacities, as the walk of
  \<open>_bfs_augment\<close> accumulates it.
\<close>

fun path_ge :: "graph \<Rightarrow> int \<Rightarrow> node list \<Rightarrow> bool" where
  "path_ge res m (x # u # us) = (m \<le> cap res u x \<and> path_ge res m (u # us))"
| "path_ge res m us = True"

fun path_min :: "graph \<Rightarrow> node list \<Rightarrow> bound \<Rightarrow> bound" where
  "path_min res (x # u # us) b = path_min res (u # us) (min_bound b (cap res u x))"
| "path_min res us b = b"

text \<open>The clamp \<open>used if used > 0 else 0\<close> of the flow matrix.\<close>

definition clamp0 :: "int \<Rightarrow> int" where
  "clamp0 used = (if used > 0 then used else 0)"

text \<open>
  What the proofs establish about a result \<open>(total_flow, flow_matrix, residual)\<close> of the
  solver on the graph \<open>g\<close>: the residual capacities are non-negative, a pair of opposite
  entries keeps its sum, the residual graph has the entries of the graph and their
  reverses, the net flow \<open>cap g n v - cap res n v\<close> out of every inner node sums to 0 and
  out of the source to the total flow, the nodes reached in the last search are closed
  under positive residual capacity, and the flow matrix is the clamped difference.
\<close>

definition ek_post :: "graph \<Rightarrow> node \<Rightarrow> node \<Rightarrow> int \<Rightarrow> graph \<Rightarrow> graph \<Rightarrow> bool" where
  "ek_post g s t tf fm res \<longleftrightarrow>
     (\<forall>a b. 0 \<le> cap res a b)
     \<and> (\<forall>a b. cap res a b + cap res b a = cap g a b + cap g b a)
     \<and> (\<forall>a b. get2 res a b \<noteq> None \<longleftrightarrow> get2 g a b \<noteq> None \<or> get2 g b a \<noteq> None)
     \<and> (\<forall>n. n \<noteq> s \<longrightarrow> n \<noteq> t \<longrightarrow> (\<Sum>v \<in> graph_nodes g. cap g n v - cap res n v) = 0)
     \<and> tf = (\<Sum>v \<in> graph_nodes g. cap g s v - cap res s v)
     \<and> 0 \<le> tf
     \<and> (\<exists>P. s \<in> P \<and> (t \<in> P \<longrightarrow> t = s) \<and> closed res P)
     \<and> (\<forall>a b. get2 fm a b =
            (case get2 g a b of Some c \<Rightarrow> Some (clamp0 (c - cap res a b)) | None \<Rightarrow> None))
     \<and> wf_dict2 fm \<and> set (keys fm) \<subseteq> set (keys g)"

section \<open>Example networks\<close>

text \<open>
  The diamond of the spec's second scenario, a network with a pair of opposite edges,
  and a single edge; each is the state that the corresponding \<open>add_edge\<close> calls build.
\<close>

definition diamond :: MaxFlow where
  "diamond = \<lparr>graph = [(''s'', [(''a'', 5), (''b'', 5)]), (''a'', [(''t'', 3)]),
                       (''b'', [(''t'', 10)]), (''t'', [])],
             nodes = {''s'', ''a'', ''b'', ''t''}\<rparr>"

definition antiparallel :: MaxFlow where
  "antiparallel = \<lparr>graph = [(''s'', [(''b'', 5)]), (''b'', [(''a'', 5)]),
                            (''a'', [(''b'', 3), (''t'', 5)]), (''t'', [])],
                   nodes = {''s'', ''b'', ''a'', ''t''}\<rparr>"

definition single_edge :: MaxFlow where
  "single_edge = \<lparr>graph = [(''s'', [(''t'', 10)]), (''t'', [])], nodes = {''s'', ''t''}\<rparr>"

section \<open>Dictionaries\<close>

lemma map_of_setdefault:
  "map_of (setdefault k v d) k' =
     (if k' = k then (case map_of d k of None \<Rightarrow> Some v | Some x \<Rightarrow> Some x) else map_of d k')"
  by (auto simp: setdefault_def map_add_def split: option.splits)

lemma map_of_None_keys: "map_of d k = None \<longleftrightarrow> k \<notin> set (keys d)"
  by (simp add: keys_def map_of_eq_None_iff)

lemma keys_setdefault:
  "keys (setdefault k v d) = (if k \<in> set (keys d) then keys d else keys d @ [k])"
  using map_of_None_keys[of d k]
  by (auto simp: setdefault_def keys_def split: option.splits)

lemma keys_update:
  "keys (AList.update k v d) = (if k \<in> set (keys d) then keys d else keys d @ [k])"
  by (simp add: keys_def update_keys)

lemma update_append_present:
  "k \<in> fst ` set d \<Longrightarrow> AList.update k v (d @ e) = AList.update k v d @ e"
  by (induction d) auto

lemma update_setdefault_commute:
  assumes "map_of d u \<noteq> None"
  shows "AList.update u r (setdefault v x d) = setdefault v x (AList.update u r d)"
proof (cases "map_of d v")
  case None
  then have ne: "v \<noteq> u" using assms by auto
  have "u \<in> fst ` set d" using assms by (simp add: map_of_eq_None_iff)
  then show ?thesis using None ne
    by (simp add: setdefault_def update_conv' update_append_present)
next
  case (Some a)
  then show ?thesis by (simp add: setdefault_def update_conv')
qed

lemma setdefault_idem: "setdefault k v (setdefault k w d) = setdefault k w d"
  by (simp add: setdefault_def map_add_def split: option.splits)

lemma add_edge_twice_eq:
  assumes "0 \<le> c1" "0 \<le> c2"
  shows "add_edge_twice u v c1 c2 mf = add_edge u v (c1 + c2) mf"
proof -
  define g1 where "g1 = setdefault u [] (graph mf)"
  define row where "row = (case map_of g1 u of None \<Rightarrow> [] | Some r \<Rightarrow> r)"
  define old where "old = (case map_of row v of None \<Rightarrow> (0::int) | Some x \<Rightarrow> x)"
  define g2 where "g2 = AList.update u (AList.update v (old + c1) row) g1"
  define g3 where "g3 = setdefault v ([]::int dict) g2"
  have first: "add_edge u v c1 mf = (Inr (), \<lparr>graph = g3, nodes = insert v (insert u (nodes mf))\<rparr>)"
    using assms by (simp add: add_edge_def Let_def g1_def row_def old_def g2_def g3_def)
  have g2u: "map_of g2 u = Some (AList.update v (old + c1) row)"
    by (simp add: g2_def update_conv')
  have g3u: "map_of g3 u = Some (AList.update v (old + c1) row)"
    using g2u by (auto simp: g3_def map_of_setdefault)
  have s1: "setdefault u [] g3 = g3"
    using g3u by (simp add: setdefault_def)
  have g1u: "map_of g1 u \<noteq> None"
    by (simp add: g1_def map_of_setdefault split: option.splits)
  have upd: "AList.update u r g3 = setdefault v [] (AList.update u r g1)" for r
    using g2u by (simp add: g3_def update_setdefault_commute g2_def)
  have second: "add_edge u v c2 \<lparr>graph = g3, nodes = insert v (insert u (nodes mf))\<rparr>
      = (Inr (), \<lparr>graph = setdefault v [] (AList.update u (AList.update v (old + c1 + c2) row) g1),
                  nodes = insert v (insert u (nodes mf))\<rparr>)"
    using assms by (simp add: add_edge_def Let_def s1 g3u update_conv' upd setdefault_idem insert_absorb)
  have third: "add_edge u v (c1 + c2) mf
      = (Inr (), \<lparr>graph = setdefault v [] (AList.update u (AList.update v (old + c1 + c2) row) g1),
                  nodes = insert v (insert u (nodes mf))\<rparr>)"
    using assms by (simp add: add_edge_def Let_def g1_def row_def old_def add.assoc)
  show ?thesis
    by (simp add: add_edge_twice_def first second third)
qed

lemma list_all_update:
  "list_all (\<lambda>(u, row). P row) g \<Longrightarrow> P r \<Longrightarrow> list_all (\<lambda>(u, row). P row) (AList.update k r g)"
  by (induction g) auto

lemma wf_dict2_setdefault: "wf_dict2 g \<Longrightarrow> wf_dict2 (setdefault k [] g)"
  using map_of_None_keys[of g k]
  by (auto simp: wf_dict2_def setdefault_def keys_def split: option.splits)

lemma wf_dict2_row: "wf_dict2 g \<Longrightarrow> map_of g u = Some row \<Longrightarrow> distinct (keys row)"
  by (auto simp: wf_dict2_def list_all_iff dest!: map_of_SomeD)

lemma wf_dict2_update:
  "wf_dict2 g \<Longrightarrow> distinct (keys r) \<Longrightarrow> wf_dict2 (AList.update k r g)"
  unfolding wf_dict2_def keys_def
  by (simp add: distinct_update list_all_update)

lemma add_edge_graph:
  assumes "0 \<le> c" "add_edge u v c mf = (r, mf')"
  shows "r = Inr () \<and> get2 (graph mf') u v = Some (cap (graph mf) u v + c)
         \<and> (wf_dict2 (graph mf) \<longrightarrow> wf_dict2 (graph mf'))"
proof -
  define g1 where "g1 = setdefault u [] (graph mf)"
  define row where "row = (case map_of g1 u of None \<Rightarrow> [] | Some r \<Rightarrow> r)"
  have old: "(case map_of row v of None \<Rightarrow> (0::int) | Some x \<Rightarrow> x) = cap (graph mf) u v"
    by (simp add: cap_def get2_def row_def g1_def map_of_setdefault split: option.splits)
  have g1u: "map_of g1 u = Some row"
    by (simp add: g1_def row_def map_of_setdefault split: option.splits)
  have res: "r = Inr ()" "graph mf' = setdefault v [] (AList.update u (AList.update v (cap (graph mf) u v + c) row) g1)"
    using assms old by (auto simp: add_edge_def Let_def g1_def row_def)
  have "get2 (graph mf') u v = Some (cap (graph mf) u v + c)"
    by (simp add: res get2_def map_of_setdefault update_conv')
  moreover have "wf_dict2 (graph mf')" if wf: "wf_dict2 (graph mf)"
  proof -
    have "wf_dict2 g1" using wf by (simp add: g1_def wf_dict2_setdefault)
    moreover then have "distinct (keys row)" using g1u by (rule wf_dict2_row)
    ultimately show ?thesis
      by (simp add: res wf_dict2_setdefault wf_dict2_update keys_def distinct_update)
  qed
  ultimately show ?thesis using res by simp
qed

lemma count_list_append: "count_list (xs @ ys) x = count_list xs x + count_list ys x"
  by (induction xs) auto

lemma count_row_other: "u' \<noteq> u \<Longrightarrow> count_list (map (\<lambda>(v, c). (u', v)) row) (u, v) = 0"
  by (induction row) auto

lemma count_row_same:
  "distinct (map fst row) \<Longrightarrow>
   count_list (map (\<lambda>(v, c). (u, v)) row) (u, v) = (case map_of row v of None \<Rightarrow> 0 | Some _ \<Rightarrow> 1)"
proof (induction row)
  case Nil
  then show ?case by simp
next
  case (Cons a row)
  then show ?case
    by (cases a) (force simp: map_of_eq_None_iff image_iff split: option.splits)
qed

lemma edge_count_wf:
  "wf_dict2 g \<Longrightarrow> edge_count g u v = (case get2 g u v of None \<Rightarrow> 0 | Some _ \<Rightarrow> 1)"
proof (induction g)
  case Nil
  then show ?case by (simp add: edge_count_def edge_list_def get2_def)
next
  case (Cons a g)
  obtain u' row where a: "a = (u', row)" by (cases a)
  have wf: "wf_dict2 g" and d: "distinct (map fst row)" and nin: "u' \<notin> fst ` set g"
    using Cons.prems by (auto simp: wf_dict2_def a keys_def)
  have ih: "edge_count g u v = (case get2 g u v of None \<Rightarrow> 0 | Some _ \<Rightarrow> 1)"
    using Cons.IH wf by simp
  have ec: "edge_count ((u', row) # g) u v = count_list (map (\<lambda>(v, c). (u', v)) row) (u, v) + edge_count g u v"
    by (simp add: edge_count_def edge_list_def count_list_append)
  show ?case
  proof (cases "u' = u")
    case True
    then have "map_of g u = None" using nin by (simp add: map_of_eq_None_iff)
    then have "edge_count g u v = 0" using ih by (simp add: get2_def)
    then show ?thesis using True d unfolding a ec by (simp add: count_row_same get2_def)
  next
    case False
    then show ?thesis unfolding a ec by (simp add: count_row_other ih get2_def)
  qed
qed

section \<open>Termination of the breadth-first search\<close>

lemma finite_inner_keys: "finite (inner_keys res)"
  by (auto simp: inner_keys_def)

lemma row_keys_inner: "map_of res u = Some items \<Longrightarrow> set (keys items) \<subseteq> inner_keys res"
  by (force simp: inner_keys_def dest!: map_of_SomeD)

lemma scan_measure:
  assumes "finite U" "set (keys items) \<subseteq> U" "scan u t items par q = (par', q', b)"
  shows "2 * card (U - set (keys par')) + length q' \<le> 2 * card (U - set (keys par)) + length q"
  using assms(2,3)
proof (induction items arbitrary: par q)
  case Nil
  then show ?case by simp
next
  case (Cons a items)
  obtain v c where a: "a = (v, c)" by (cases a)
  have sub: "set (keys items) \<subseteq> U" and vU: "v \<in> U"
    using Cons.prems(1) by (auto simp: keys_def a)
  show ?case
  proof (cases "map_of par v = None \<and> c > 0")
    case False
    then have "scan u t items par q = (par', q', b)" using Cons.prems(2) by (auto simp: a)
    then show ?thesis using Cons.IH[OF sub] by simp
  next
    case True
    then have nin: "v \<notin> set (keys par)" by (simp add: map_of_None_keys)
    let ?p = "AList.update v (Some u) par"
    have k: "set (keys ?p) = insert v (set (keys par))" using nin by (simp add: keys_update)
    have vin: "v \<in> U - set (keys par)" using vU nin by simp
    have fin: "finite (U - set (keys par))" using assms(1) by simp
    have "U - set (keys ?p) = (U - set (keys par)) - {v}" using k by auto
    then have c1: "card (U - set (keys ?p)) = card (U - set (keys par)) - 1"
      using vin fin by simp
    have c2: "card (U - set (keys par)) \<ge> 1"
      using vin fin by (metis One_nat_def Suc_leI card_gt_0_iff empty_iff)
    show ?thesis
    proof (cases "v = t")
      case True
      with \<open>map_of par v = None \<and> c > 0\<close> Cons.prems(2)
      have "par' = ?p" "q' = q" by (auto simp: a Let_def)
      then show ?thesis using c1 c2 by simp
    next
      case False
      with \<open>map_of par v = None \<and> c > 0\<close> Cons.prems(2)
      have "scan u t items ?p (q @ [v]) = (par', q', b)" by (auto simp: a Let_def)
      from Cons.IH[OF sub this] show ?thesis using c1 c2 by simp
    qed
  qed
qed

termination bfs_loop
  apply (relation "measure (\<lambda>(res, t, par, q). 2 * card (inner_keys res - set (keys par)) + length q)")
   apply simp
  apply clarsimp
  subgoal premises prems for res par u q items par' q'
    using scan_measure[OF finite_inner_keys row_keys_inner[OF prems(1)] prems(2)[symmetric]]
    by simp
  done

section \<open>Edge insertion\<close>

text \<open>
  Claim C9.  Calling \<open>add_edge(u, v, c1)\<close> and then \<open>add_edge(u, v, c2)\<close> with
  non-negative capacities leaves exactly the state of the single call
  \<open>add_edge(u, v, c1 + c2)\<close>: the graph holds one entry for the ordered pair \<open>(u, v)\<close>,
  and its capacity is the capacity the pair had before (0 when it was absent) plus
  \<open>c1 + c2\<close>.  In particular the same edge added twice to a graph without it is one
  edge of doubled capacity.
\<close>

theorem add_edge_accumulates:
  assumes "0 \<le> c1" "0 \<le> c2" "wf_dict2 (graph mf)"
  shows "\<exists>mf'. add_edge_twice u v c1 c2 mf = (Inr (), mf')
           \<and> add_edge u v (c1 + c2) mf = (Inr (), mf')
           \<and> cap (graph mf') u v = cap (graph mf) u v + (c1 + c2)
           \<and> edge_count (graph mf') u v = 1"
proof -
  obtain r mf' where e: "add_edge u v (c1 + c2) mf = (r, mf')" by (cases "add_edge u v (c1 + c2) mf")
  have "0 \<le> c1 + c2" using assms by simp
  from add_edge_graph[OF this e] assms(3)
  have r: "r = Inr ()" and g: "get2 (graph mf') u v = Some (cap (graph mf) u v + (c1 + c2))"
    and wf: "wf_dict2 (graph mf')" by auto
  have "edge_count (graph mf') u v = 1" using edge_count_wf[OF wf, of u v] g by simp
  moreover have "cap (graph mf') u v = cap (graph mf) u v + (c1 + c2)" using g by (simp add: cap_def)
  ultimately show ?thesis using e r add_edge_twice_eq[OF assms(1,2), of u v mf] by simp
qed

theorem add_edge_accumulates_witness:
  "(0::int) \<le> 3 \<and> (0::int) \<le> 3 \<and> wf_dict2 (graph init)
   \<and> (\<exists>mf'. add_edge_twice ''T1'' ''S1'' 3 3 init = (Inr (), mf')
           \<and> add_edge ''T1'' ''S1'' (3 + 3) init = (Inr (), mf')
           \<and> cap (graph mf') ''T1'' ''S1'' = cap (graph init) ''T1'' ''S1'' + (3 + 3)
           \<and> edge_count (graph mf') ''T1'' ''S1'' = 1)"
proof -
  have w: "wf_dict2 (graph init)" by (simp add: init_def wf_dict2_def keys_def)
  show ?thesis using add_edge_accumulates[of 3 3 init "''T1''" "''S1''"] w by simp
qed

text \<open>
  Claim C10.  A negative capacity makes \<open>add_edge\<close> raise (the \<open>ValueError\<close> of the
  source is the spec's InvalidCapacity), and the state returned with the error is the
  state the call received: no node and no edge entry was added or changed.
\<close>

theorem add_edge_negative_raises:
  "c < 0 \<Longrightarrow> add_edge u v c mf = (Inl ValueError, mf)"
  by (simp add: add_edge_def)

theorem add_edge_negative_raises_witness:
  "(-1::int) < 0 \<and> add_edge ''T1'' ''S1'' (-1) init = (Inl ValueError, init)"
  using add_edge_negative_raises[of "-1" "''T1''" "''S1''" init] by simp

section \<open>The residual graph builder\<close>

lemma in_keys_iff: "k \<in> set (keys d) \<longleftrightarrow> map_of d k \<noteq> None"
  by (simp add: map_of_None_keys)

lemma get2_ensure_entry:
  "get2 (ensure_entry v u res) a b =
     (if a = v \<and> b = u then (case get2 res v u of None \<Rightarrow> Some 0 | Some c \<Rightarrow> Some c)
      else get2 res a b)"
  by (auto simp: ensure_entry_def Let_def get2_def map_of_setdefault update_conv' split: option.splits)

lemma keys_ensure_entry:
  "keys (ensure_entry v u res) = (if v \<in> set (keys res) then keys res else keys res @ [v])"
  by (auto simp: ensure_entry_def Let_def keys_update keys_setdefault)

lemma get2_add_reverse:
  "get2 (add_reverse u vs res) a b =
     (case get2 res a b of Some c \<Rightarrow> Some c
      | None \<Rightarrow> if b = u \<and> a \<in> set vs then Some 0 else None)"
proof (induction vs arbitrary: res)
  case Nil
  then show ?case by (simp split: option.splits)
next
  case (Cons v vs)
  show ?case
    by (simp add: Cons.IH get2_ensure_entry split: option.splits)
qed

lemma keys_add_reverse: "set (keys res) \<subseteq> set (keys (add_reverse u vs res))"
proof (induction vs arbitrary: res)
  case Nil
  then show ?case by simp
next
  case (Cons v vs)
  have "set (keys res) \<subseteq> set (keys (ensure_entry v u res))"
    by (auto simp: keys_ensure_entry)
  also have "\<dots> \<subseteq> set (keys (add_reverse u vs (ensure_entry v u res)))"
    by (rule Cons.IH)
  finally show ?case by simp
qed

lemma get2_keys: "get2 res a b \<noteq> None \<Longrightarrow> a \<in> set (keys res)"
  by (auto simp: get2_def in_keys_iff split: option.splits)

lemma row_key_get2: "map_of res u = Some row \<Longrightarrow> a \<in> set (keys row) \<longleftrightarrow> get2 res u a \<noteq> None"
  by (simp add: get2_def map_of_None_keys)

lemma build_loop_spec:
  assumes "set us \<subseteq> set (keys res)"
  shows "\<exists>res'. build_loop us res = Inr res' \<and> set (keys res) \<subseteq> set (keys res')
           \<and> (\<forall>a b. get2 res' a b =
                 (case get2 res a b of Some c \<Rightarrow> Some c
                  | None \<Rightarrow> if b \<in> set us \<and> get2 res b a \<noteq> None then Some 0 else None))"
  using assms
proof (induction us arbitrary: res)
  case Nil
  then show ?case by (simp split: option.splits)
next
  case (Cons u us)
  from Cons.prems obtain row where row: "map_of res u = Some row"
    by (auto simp: in_keys_iff)
  let ?r1 = "add_reverse u (keys row) res"
  have k1: "set (keys res) \<subseteq> set (keys ?r1)" by (rule keys_add_reverse)
  then have "set us \<subseteq> set (keys ?r1)" using Cons.prems by auto
  from Cons.IH[OF this] obtain res' where
    r: "build_loop us ?r1 = Inr res'" and k: "set (keys ?r1) \<subseteq> set (keys res')"
    and g: "\<And>a b. get2 res' a b =
                 (case get2 ?r1 a b of Some c \<Rightarrow> Some c
                  | None \<Rightarrow> if b \<in> set us \<and> get2 ?r1 b a \<noteq> None then Some 0 else None)"
    by blast
  have g1: "\<And>a b. get2 ?r1 a b =
     (case get2 res a b of Some c \<Rightarrow> Some c
      | None \<Rightarrow> if b = u \<and> get2 res u a \<noteq> None then Some 0 else None)"
    by (auto simp: get2_add_reverse row_key_get2[OF row] split: option.splits)
  have "get2 res' a b =
      (case get2 res a b of Some c \<Rightarrow> Some c
       | None \<Rightarrow> if b \<in> set (u # us) \<and> get2 res b a \<noteq> None then Some 0 else None)" for a b
    unfolding g g1 by (auto split: option.splits)
  then show ?case using r k k1 row by auto
qed

lemma build_residual_spec:
  "\<exists>res. build_residual mf = Inr res \<and> set (keys (graph mf)) \<subseteq> set (keys res)
     \<and> (\<forall>a b. get2 res a b =
           (case get2 (graph mf) a b of Some c \<Rightarrow> Some c
            | None \<Rightarrow> if get2 (graph mf) b a \<noteq> None then Some 0 else None))"
proof -
  from build_loop_spec[of "keys (graph mf)" "graph mf"] obtain res where
    r: "build_loop (keys (graph mf)) (graph mf) = Inr res"
    and k: "set (keys (graph mf)) \<subseteq> set (keys res)"
    and g: "\<And>a b. get2 res a b =
                 (case get2 (graph mf) a b of Some c \<Rightarrow> Some c
                  | None \<Rightarrow> if b \<in> set (keys (graph mf)) \<and> get2 (graph mf) b a \<noteq> None then Some 0 else None)"
    by blast
  have "get2 res a b =
           (case get2 (graph mf) a b of Some c \<Rightarrow> Some c
            | None \<Rightarrow> if get2 (graph mf) b a \<noteq> None then Some 0 else None)" for a b
    unfolding g using get2_keys[of "graph mf" b a] by (cases "get2 (graph mf) b a") (auto split: option.splits)
  then show ?thesis using r k by (auto simp: build_residual_def)
qed

text \<open>
  Claim C7.  For every graph, \<open>_build_residual\<close> returns a residual graph in which every
  original edge keeps its capacity (also when its reverse is an original edge: an
  existing entry is never overwritten), the reverse of every original edge whose reverse
  is not an original edge has capacity 0, and every present entry \<open>(u, v)\<close> has a
  reciprocal entry \<open>(v, u)\<close>.
\<close>

theorem build_residual_reciprocal:
  "\<exists>res. build_residual mf = Inr res
     \<and> (\<forall>u v c. get2 (graph mf) u v = Some c \<longrightarrow> get2 res u v = Some c)
     \<and> (\<forall>u v. get2 (graph mf) u v \<noteq> None \<and> get2 (graph mf) v u = None \<longrightarrow> get2 res v u = Some 0)
     \<and> (\<forall>u v. get2 res u v \<noteq> None \<longrightarrow> get2 res v u \<noteq> None)"
proof -
  from build_residual_spec[of mf] obtain res where
    r: "build_residual mf = Inr res"
    and g: "\<And>a b. get2 res a b =
           (case get2 (graph mf) a b of Some c \<Rightarrow> Some c
            | None \<Rightarrow> if get2 (graph mf) b a \<noteq> None then Some 0 else None)"
    by blast
  have "\<forall>u v c. get2 (graph mf) u v = Some c \<longrightarrow> get2 res u v = Some c"
    by (simp add: g)
  moreover have "\<forall>u v. get2 (graph mf) u v \<noteq> None \<and> get2 (graph mf) v u = None \<longrightarrow> get2 res v u = Some 0"
    by (simp add: g)
  moreover have "\<forall>u v. get2 res u v \<noteq> None \<longrightarrow> get2 res v u \<noteq> None"
    unfolding g by (auto split: option.splits if_splits)
  ultimately show ?thesis using r by blast
qed

theorem build_residual_reciprocal_witness:
  "\<exists>res. build_residual \<lparr>graph = [(''a'', [(''b'', 3), (''t'', 5)]), (''b'', [(''a'', 5)]), (''t'', [])],
                             nodes = {''a'', ''b'', ''t''}\<rparr> = Inr res
     \<and> get2 res ''a'' ''b'' = Some 3 \<and> get2 res ''b'' ''a'' = Some 5
     \<and> get2 res ''t'' ''a'' = Some 0 \<and> get2 res ''b'' ''t'' = None"
proof -
  let ?mf = "\<lparr>graph = [(''a'', [(''b'', 3), (''t'', 5)]), (''b'', [(''a'', 5)]), (''t'', [])],
             nodes = {''a'', ''b'', ''t''}\<rparr>"
  from build_residual_reciprocal[of ?mf] obtain res where
    r: "build_residual ?mf = Inr res"
    and a: "\<forall>u v c. get2 (graph ?mf) u v = Some c \<longrightarrow> get2 res u v = Some c"
    and b: "\<forall>u v. get2 (graph ?mf) u v \<noteq> None \<and> get2 (graph ?mf) v u = None \<longrightarrow> get2 res v u = Some 0"
    by blast
  have "get2 res ''a'' ''b'' = Some 3" using a by (simp add: get2_def)
  moreover have "get2 res ''b'' ''a'' = Some 5" using a by (simp add: get2_def)
  moreover have "get2 res ''t'' ''a'' = Some 0" using b[rule_format, of "''a''" "''t''"] by (simp add: get2_def)
  moreover have "get2 res ''b'' ''t'' = None"
    using r by (auto simp: build_residual_def keys_def ensure_entry_def setdefault_def get2_def)
  ultimately show ?thesis using r by blast
qed

section \<open>The augmenting loop\<close>

subsection \<open>Updates of a residual capacity\<close>

lemma map_of_shape: "map_of (shape res) u = map_option keys (map_of res u)"
  by (induction res) (auto simp: shape_def)

lemma shape_present:
  assumes "shape a = shape b"
  shows "get2 a u v = None \<longleftrightarrow> get2 b u v = None"
proof -
  have "map_option keys (map_of a u) = map_option keys (map_of b u)"
    using assms map_of_shape by metis
  then show ?thesis
  proof (cases "map_of a u")
    case None
    with \<open>map_option keys (map_of a u) = map_option keys (map_of b u)\<close>
    have "map_of b u = None" by simp
    with None show ?thesis by (simp add: get2_def)
  next
    case (Some ra)
    with \<open>map_option keys (map_of a u) = map_option keys (map_of b u)\<close>
    obtain rb where rb: "map_of b u = Some rb" "keys rb = keys ra" by (cases "map_of b u") auto
    have "map_of ra v = None \<longleftrightarrow> map_of rb v = None"
      using rb(2) by (simp add: map_of_None_keys)
    then show ?thesis using Some rb(1) by (simp add: get2_def)
  qed
qed

lemma shape_keys: "shape a = shape b \<Longrightarrow> keys a = keys b"
proof -
  have "keys x = map fst (shape x)" for x :: graph
    by (simp add: keys_def shape_def comp_def case_prod_beta)
  then show "shape a = shape b \<Longrightarrow> keys a = keys b" by simp
qed

lemma wf_dict2_shape_conv:
  "wf_dict2 g \<longleftrightarrow> distinct (map fst (shape g)) \<and> list_all (\<lambda>(u, ks). distinct ks) (shape g)"
  by (simp add: wf_dict2_def shape_def keys_def comp_def case_prod_beta list_all_iff)

lemma shape_wf: "shape a = shape b \<Longrightarrow> wf_dict2 a \<longleftrightarrow> wf_dict2 b"
  by (simp add: wf_dict2_shape_conv)

lemma shape_update_row:
  "map_of res u = Some row \<Longrightarrow> keys row' = keys row \<Longrightarrow> shape (AList.update u row' res) = shape res"
  by (induction res) (auto simp: shape_def)

lemma keys_update_present: "map_of row v = Some c \<Longrightarrow> keys (AList.update v x row) = keys row"
  by (simp add: keys_update in_keys_iff)

lemma sum_update_present:
  "map_of row v = Some c \<Longrightarrow>
     sum_list (map snd (AList.update v x row)) = sum_list (map snd row) - c + (x::int)"
  by (induction row) (auto split: if_splits)

lemma adjust_ok:
  assumes "get2 res u v = Some c"
  shows "\<exists>res'. adjust res u v d = Inr res' \<and> shape res' = shape res
           \<and> (\<forall>a b. get2 res' a b = (if a = u \<and> b = v then Some (c + d) else get2 res a b))
           \<and> (\<forall>n. row_sum res' n = row_sum res n + (if n = u then d else 0))"
proof -
  from assms obtain row where row: "map_of res u = Some row" and c: "map_of row v = Some c"
    by (auto simp: get2_def split: option.splits)
  let ?r = "AList.update u (AList.update v (c + d) row) res"
  have 1: "adjust res u v d = Inr ?r" by (simp add: adjust_def row c)
  have 2: "shape ?r = shape res"
    by (rule shape_update_row[OF row]) (rule keys_update_present[OF c])
  have 3: "get2 ?r a b = (if a = u \<and> b = v then Some (c + d) else get2 res a b)" for a b
    by (auto simp: get2_def update_conv' row)
  have 4: "row_sum ?r n = row_sum res n + (if n = u then d else 0)" for n
    by (auto simp: row_sum_def update_conv' row sum_update_present[OF c])
  show ?thesis using 1 2 3 4 by blast
qed

lemma cap_get2: "get2 res a b = Some c \<Longrightarrow> cap res a b = c"
  by (simp add: cap_def)

lemma cap_pos_present: "0 < cap res a b \<Longrightarrow> \<exists>c. get2 res a b = Some c \<and> 0 < c"
  by (auto simp: cap_def split: option.splits)

subsection \<open>The bottleneck walk\<close>

lemma walk_bottleneck_chain:
  assumes "chain par x xs" "path_ge res 1 xs"
  shows "walk_bottleneck res par x b = Some (Inr (path_min res xs b))"
  using assms
proof (induction arbitrary: b rule: chain.induct)
  case (chain_root x)
  then show ?case by (subst walk_bottleneck.simps) simp
next
  case (chain_step x u us)
  from chain_step.hyps(2) obtain us' where us: "us = u # us'" by (cases rule: chain.cases) auto
  from chain_step.prems us have pos: "0 < cap res u x" and rest: "path_ge res 1 us" by auto
  from cap_pos_present[OF pos] obtain c where c: "get2 res u x = Some c" by blast
  then obtain row where row: "map_of res u = Some row" "map_of row x = Some c"
    by (auto simp: get2_def split: option.splits)
  have "walk_bottleneck res par x b = walk_bottleneck res par u (min_bound b c)"
    by (subst walk_bottleneck.simps) (simp add: chain_step.hyps(1) row)
  also have "\<dots> = Some (Inr (path_min res us (min_bound b c)))"
    by (rule chain_step.IH[OF rest])
  finally show ?case using us cap_get2[OF c] by simp
qed

lemma path_min_Fin:
  "path_ge res 1 xs \<Longrightarrow> \<exists>m'. path_min res xs (Fin m) = Fin m' \<and> m' \<le> m \<and> (0 < m \<longrightarrow> 0 < m') \<and> path_ge res m' xs"
proof (induction res xs "Fin m" arbitrary: m rule: path_min.induct)
  case (1 res x u us)
  from "1.prems" have pos: "1 \<le> cap res u x" and rest: "path_ge res 1 (u # us)" by auto
  from "1.hyps"[of "min m (cap res u x)"] rest obtain m' where
    m': "path_min res (u # us) (Fin (min m (cap res u x))) = Fin m'" "m' \<le> min m (cap res u x)"
      "0 < min m (cap res u x) \<longrightarrow> 0 < m'" "path_ge res m' (u # us)"
    by auto
  then show ?case using pos by auto
qed simp_all

lemma path_min_Inf:
  assumes "path_ge res 1 xs" "2 \<le> length xs"
  shows "\<exists>m. path_min res xs Inf = Fin m \<and> 0 < m \<and> path_ge res m xs"
proof -
  from assms(2) obtain x u us where xs: "xs = x # u # us"
    by (cases xs; cases "tl xs") auto
  from assms(1) xs have pos: "1 \<le> cap res u x" and rest: "path_ge res 1 (u # us)" by auto
  from path_min_Fin[OF rest, of "cap res u x"] obtain m' where
    "path_min res (u # us) (Fin (cap res u x)) = Fin m'" "m' \<le> cap res u x" "0 < m'" "path_ge res m' (u # us)"
    using pos by auto
  then show ?thesis using xs by auto
qed

subsection \<open>The update along the path\<close>

lemma path_ge_mono:
  "path_ge res m xs \<Longrightarrow> (\<And>a b. b \<in> set xs \<Longrightarrow> cap res a b \<le> cap res' a b) \<Longrightarrow> path_ge res' m xs"
proof (induction res m xs rule: path_ge.induct)
  case (1 res m x u us)
  have "cap res u x \<le> cap res' u x" using "1.prems"(2) by simp
  moreover have "path_ge res' m (u # us)" using 1 by simp
  ultimately show ?case using "1.prems"(1) by simp
qed simp_all

lemma chain_hd: "chain par x xs \<Longrightarrow> \<exists>ys. xs = x # ys"
  by (cases rule: chain.cases) auto

lemma push_flow_chain:
  assumes "chain par x xs" "distinct xs" "path_ge res aug xs" "0 < aug"
    "\<forall>a b. 0 \<le> cap res a b" "\<forall>a b. get2 res a b \<noteq> None \<longrightarrow> get2 res b a \<noteq> None"
  shows "\<exists>res'. push_flow par aug x res = Some (Inr res') \<and> shape res' = shape res
           \<and> (\<forall>a b. 0 \<le> cap res' a b)
           \<and> (\<forall>a b. cap res' a b + cap res' b a = cap res a b + cap res b a)
           \<and> (\<forall>n. row_sum res' n = row_sum res n + (if n = x then aug else 0) - (if n = last xs then aug else 0))"
  using assms
proof (induction arbitrary: res rule: chain.induct)
  case (chain_root x)
  have "push_flow par aug x res = Some (Inr res)"
    by (subst push_flow.simps) (simp add: chain_root.hyps)
  then show ?case using chain_root.prems(4) by simp
next
  case (chain_step x u us)
  from chain_hd[OF chain_step.hyps(2)] obtain us' where us: "us = u # us'" by blast
  have ne: "u \<noteq> x" and dus: "distinct us" and xnin: "x \<notin> set us"
    using chain_step.prems(1) us by auto
  have ge: "aug \<le> cap res u x" and rest: "path_ge res aug us"
    using chain_step.prems(2) us by auto
  have nonneg: "\<And>a b. 0 \<le> cap res a b" using chain_step.prems(4) by blast
  have recip: "\<And>a b. get2 res a b \<noteq> None \<Longrightarrow> get2 res b a \<noteq> None"
    using chain_step.prems(5) by blast
  from ge \<open>0 < aug\<close> have "0 < cap res u x" by simp
  from cap_pos_present[OF this] obtain c where c: "get2 res u x = Some c" by blast
  with recip[of u x] obtain c' where c': "get2 res x u = Some c'" by auto
  from adjust_ok[OF c, of "- aug"] obtain r1 where
    a1: "adjust res u x (- aug) = Inr r1" and s1: "shape r1 = shape res"
    and g1: "\<And>a b. get2 r1 a b = (if a = u \<and> b = x then Some (c + - aug) else get2 res a b)"
    and w1: "\<And>n. row_sum r1 n = row_sum res n + (if n = u then - aug else 0)"
    by blast
  have "get2 r1 x u = Some c'" using g1 c' ne by simp
  from adjust_ok[OF this, of aug] obtain r2 where
    a2: "adjust r1 x u aug = Inr r2" and s2: "shape r2 = shape r1"
    and g2: "\<And>a b. get2 r2 a b = (if a = x \<and> b = u then Some (c' + aug) else get2 r1 a b)"
    and w2: "\<And>n. row_sum r2 n = row_sum r1 n + (if n = x then aug else 0)"
    by blast
  have cap2: "cap r2 a b = (if a = x \<and> b = u then cap res x u + aug
                            else if a = u \<and> b = x then cap res u x - aug else cap res a b)" for a b
    using c c' ne by (simp add: cap_def g2 g1)
  have nn2: "\<forall>a b. 0 \<le> cap r2 a b"
    using nonneg ge \<open>0 < aug\<close> by (auto simp: cap2 intro: add_nonneg_nonneg)
  have sh2: "shape r2 = shape res" using s1 s2 by simp
  have rc2: "\<forall>a b. get2 r2 a b \<noteq> None \<longrightarrow> get2 r2 b a \<noteq> None"
    using recip by (simp add: shape_present[OF sh2])
  have pg2: "path_ge r2 aug us"
  proof (rule path_ge_mono[OF rest])
    fix a b assume "b \<in> set us"
    then have "b \<noteq> x" using xnin by auto
    then show "cap res a b \<le> cap r2 a b" using \<open>0 < aug\<close> by (simp add: cap2)
  qed
  from chain_step.IH[OF dus pg2 \<open>0 < aug\<close> nn2 rc2] obtain res' where
    p: "push_flow par aug u r2 = Some (Inr res')" and sh: "shape res' = shape r2"
    and nn: "\<forall>a b. 0 \<le> cap res' a b"
    and sk: "\<And>a b. cap res' a b + cap res' b a = cap r2 a b + cap r2 b a"
    and rs: "\<And>n. row_sum res' n = row_sum r2 n + (if n = u then aug else 0) - (if n = last us then aug else 0)"
    by blast
  have "push_flow par aug x res = Some (Inr res')"
    by (subst push_flow.simps) (simp add: chain_step.hyps(1) a1 a2 p)
  moreover have "cap res' a b + cap res' b a = cap res a b + cap res b a" for a b
    unfolding sk cap2 using ne by auto
  moreover have "row_sum res' n = row_sum res n + (if n = x then aug else 0) - (if n = last (x # us) then aug else 0)" for n
    unfolding rs w2 w1 using us by auto
  ultimately show ?case using sh sh2 nn by auto
qed

subsection \<open>The search\<close>

lemma chain_extend:
  "chain par y ys \<Longrightarrow> map_of par v = None \<Longrightarrow> chain (par @ [(v, p)]) y ys"
proof (induction rule: chain.induct)
  case (chain_root x)
  then show ?case by (auto intro!: chain.chain_root simp: map_add_def)
next
  case (chain_step x u us)
  then show ?case by (auto intro!: chain.chain_step simp: map_add_def)
qed

lemma chain_last_in: "chain par x xs \<Longrightarrow> xs \<noteq> []"
  by (cases rule: chain.cases) auto

lemma tree_chain:
  assumes "bfs_tree res s par" "map_of par x \<noteq> None"
  shows "\<exists>xs. chain par x xs \<and> distinct xs \<and> last xs = s \<and> set xs \<subseteq> set (keys par) \<and> path_ge res 1 xs"
  using assms
proof (induction arbitrary: x rule: bfs_tree.induct)
  case tree_root
  then have "x = s" by (auto split: if_splits)
  then have "chain [(s, None)] x [x]" by (auto intro: chain.chain_root)
  then show ?case using \<open>x = s\<close> by (auto simp: keys_def)
next
  case (tree_step par u v)
  show ?case
  proof (cases "map_of par x")
    case (Some a)
    with tree_step.IH[of x] obtain xs where
      xs: "chain par x xs" "distinct xs" "last xs = s" "set xs \<subseteq> set (keys par)" "path_ge res 1 xs"
      by auto
    have "chain (par @ [(v, Some u)]) x xs" by (rule chain_extend[OF xs(1) tree_step.hyps(3)])
    then show ?thesis using xs by (auto simp: keys_def)
  next
    case None
    with tree_step.prems have xv: "x = v" by (auto simp: map_add_def split: if_splits)
    from tree_step.IH[OF tree_step.hyps(2)] obtain us where
      us: "chain par u us" "distinct us" "last us = s" "set us \<subseteq> set (keys par)" "path_ge res 1 us"
      by auto
    from chain_hd[OF us(1)] obtain us' where us': "us = u # us'" by blast
    have vnin: "v \<notin> set us" using us(4) tree_step.hyps(3) by (auto simp: map_of_None_keys)
    have "map_of (par @ [(v, Some u)]) v = Some (Some u)"
      using tree_step.hyps(3) by (simp add: map_add_def)
    then have "chain (par @ [(v, Some u)]) v (v # us)"
      using chain_extend[OF us(1) tree_step.hyps(3)] by (rule chain.chain_step)
    moreover have "path_ge res 1 (v # us)" using us(5) us' tree_step.hyps(4) by simp
    moreover have "distinct (v # us)" "last (v # us) = s" "set (v # us) \<subseteq> set (keys (par @ [(v, Some u)]))"
      using us vnin us' by (auto simp: keys_def)
    ultimately show ?thesis unfolding xv by blast
  qed
qed

lemma update_absent: "map_of d k = None \<Longrightarrow> AList.update k v d = d @ [(k, v)]"
  by (induction d) (auto split: if_splits)

lemma scan_inv:
  assumes "scan u t items par q = (par', q', b)" "bfs_tree res s par" "map_of par u \<noteq> None"
    "\<forall>(v, c) \<in> set items. cap res u v = c"
  shows "bfs_tree res s par' \<and> set (keys par) \<subseteq> set (keys par')
     \<and> set q \<subseteq> set q' \<and> set q' \<subseteq> set q \<union> (set (keys par') \<inter> fst ` set items)
     \<and> set (keys par') \<subseteq> set (keys par) \<union> set q' \<union> (if b then {t} else {})
     \<and> (b \<longrightarrow> t \<in> set (keys par') \<and> t \<notin> set (keys par))
     \<and> (\<not> b \<longrightarrow> (\<forall>(v, c) \<in> set items. 0 < c \<longrightarrow> v \<in> set (keys par'))
               \<and> (t \<in> set (keys par') \<longrightarrow> t \<in> set (keys par)))"
  using assms
proof (induction items arbitrary: par q)
  case Nil
  then show ?case by auto
next
  case (Cons a items)
  obtain v c where a: "a = (v, c)" by (cases a)
  have items: "\<forall>(v, c) \<in> set items. cap res u v = c" and cv: "cap res u v = c"
    using Cons.prems(4) by (auto simp: a)
  show ?case
  proof (cases "map_of par v = None \<and> c > 0")
    case False
    then have sc: "scan u t items par q = (par', q', b)" using Cons.prems(1) by (auto simp: a)
    from Cons.IH[OF sc Cons.prems(2,3) items] False
    show ?thesis by (auto simp: a map_of_None_keys)
  next
    case True
    let ?p = "par @ [(v, Some u)]"
    have up: "AList.update v (Some u) par = ?p" using True by (simp add: update_absent)
    have tr: "bfs_tree res s ?p"
      using Cons.prems(2,3) True cv by (auto intro: bfs_tree.tree_step)
    have kp: "set (keys ?p) = insert v (set (keys par))" by (auto simp: keys_def)
    have vnin: "v \<notin> set (keys par)" using True by (simp add: map_of_None_keys)
    show ?thesis
    proof (cases "v = t")
      case True
      with \<open>map_of par v = None \<and> c > 0\<close> Cons.prems(1) up
      have "par' = ?p" "q' = q" "b" by (auto simp: a Let_def)
      then show ?thesis using tr kp vnin True by auto
    next
      case False
      with \<open>map_of par v = None \<and> c > 0\<close> Cons.prems(1) up
      have sc: "scan u t items ?p (q @ [v]) = (par', q', b)" by (auto simp: a Let_def)
      have pu: "map_of ?p u \<noteq> None" using Cons.prems(3) by (auto simp: map_add_def)
      from Cons.IH[OF sc tr pu items]
      have ih: "bfs_tree res s par'" "set (keys ?p) \<subseteq> set (keys par')"
        "set (q @ [v]) \<subseteq> set q'" "set q' \<subseteq> set (q @ [v]) \<union> (set (keys par') \<inter> fst ` set items)"
        "set (keys par') \<subseteq> set (keys ?p) \<union> set q' \<union> (if b then {t} else {})"
        "b \<longrightarrow> t \<in> set (keys par') \<and> t \<notin> set (keys ?p)"
        "\<not> b \<longrightarrow> (\<forall>(v, c) \<in> set items. 0 < c \<longrightarrow> v \<in> set (keys par'))
               \<and> (t \<in> set (keys par') \<longrightarrow> t \<in> set (keys ?p))"
        by blast+
      have 1: "set (keys par) \<subseteq> set (keys par')" using ih(2) kp by auto
      have vin: "v \<in> set (keys par')" using ih(2) kp by auto
      have 2: "set q \<subseteq> set q'" using ih(3) by auto
      have 3: "set q' \<subseteq> set q \<union> (set (keys par') \<inter> fst ` set (a # items))"
        using ih(4) vin by (auto simp: a)
      have 4: "set (keys par') \<subseteq> set (keys par) \<union> set q' \<union> (if b then {t} else {})"
        using ih(5) ih(3) kp by auto
      have 5: "b \<longrightarrow> t \<in> set (keys par') \<and> t \<notin> set (keys par)"
        using ih(6) kp by auto
      have 6: "\<not> b \<longrightarrow> (\<forall>(v, c) \<in> set (a # items). 0 < c \<longrightarrow> v \<in> set (keys par'))
               \<and> (t \<in> set (keys par') \<longrightarrow> t \<in> set (keys par))"
        using ih(7) vin kp False by (auto simp: a)
      show ?thesis using ih(1) 1 2 3 4 5 6 by blast
    qed
  qed
qed

lemma row_item_cap:
  assumes "wf_dict2 res" "map_of res u = Some items" "(v, c) \<in> set items"
  shows "cap res u v = c"
proof -
  have "distinct (map fst items)" using wf_dict2_row[OF assms(1,2)] by (simp add: keys_def)
  then have "map_of items v = Some c" using assms(3) by simp
  then show ?thesis using assms(2) by (simp add: cap_def get2_def)
qed

lemma cap_pos_item:
  assumes "map_of res u = Some items" "0 < cap res u v"
  shows "(v, cap res u v) \<in> set items"
proof -
  from cap_pos_present[OF assms(2)] obtain c where c: "get2 res u v = Some c" by blast
  then have "map_of items v = Some c" using assms(1) by (simp add: get2_def)
  then show ?thesis using c by (auto simp: cap_def dest: map_of_SomeD)
qed

lemma bfs_loop_inv:
  assumes "wf_dict2 res" "\<forall>a b. get2 res a b \<noteq> None \<longrightarrow> get2 res b a \<noteq> None"
    "bfs_tree res s par" "set q \<subseteq> set (keys par)" "set q \<subseteq> set (keys res)"
    "\<forall>w \<in> set (keys par) - set q. \<forall>v. 0 < cap res w v \<longrightarrow> v \<in> set (keys par)"
  shows "(\<exists>par'. bfs_loop res t par q = Inr (Some par') \<and> bfs_tree res s par'
             \<and> t \<in> set (keys par') \<and> t \<notin> set (keys par))
       \<or> (bfs_loop res t par q = Inr None
             \<and> (\<exists>P. set (keys par) \<subseteq> P \<and> (t \<in> P \<longrightarrow> t \<in> set (keys par)) \<and> closed res P))"
  using assms
proof (induction res t par q rule: bfs_loop.induct)
  case (1 res t par)
  then have "closed res (set (keys par))" by (simp add: closed_def)
  then show ?case by auto
next
  case (2 res t par u q)
  have wf: "wf_dict2 res" by fact
  have recip: "\<forall>a b. get2 res a b \<noteq> None \<longrightarrow> get2 res b a \<noteq> None" by fact
  have "u \<in> set (keys res)" using "2.prems"(5) by simp
  then obtain items where row: "map_of res u = Some items" by (auto simp: in_keys_iff)
  obtain par' q' b where sc: "scan u t items par q = (par', q', b)" by (cases "scan u t items par q")
  have upar: "map_of par u \<noteq> None" using "2.prems"(4) by (simp add: in_keys_iff)
  have caps: "\<forall>(v, c) \<in> set items. cap res u v = c"
    using row_item_cap[OF wf row] by auto
  from scan_inv[OF sc "2.prems"(3) upar caps]
  have si: "bfs_tree res s par'" "set (keys par) \<subseteq> set (keys par')"
        "set q \<subseteq> set q'" "set q' \<subseteq> set q \<union> (set (keys par') \<inter> fst ` set items)"
        "set (keys par') \<subseteq> set (keys par) \<union> set q' \<union> (if b then {t} else {})"
        "b \<longrightarrow> t \<in> set (keys par') \<and> t \<notin> set (keys par)"
        "\<not> b \<longrightarrow> (\<forall>(v, c) \<in> set items. 0 < c \<longrightarrow> v \<in> set (keys par'))
               \<and> (t \<in> set (keys par') \<longrightarrow> t \<in> set (keys par))"
    by blast+
  show ?case
  proof (cases b)
    case True
    then have "bfs_loop res t par (u # q) = Inr (Some par')" by (simp add: row sc)
    then show ?thesis using si(1) si(6) True by auto
  next
    case False
    then have eq: "bfs_loop res t par (u # q) = bfs_loop res t par' q'" by (simp add: row sc)
    have q1: "set q' \<subseteq> set (keys par')" using si(4) "2.prems"(4) si(2) by auto
    have q2: "set q' \<subseteq> set (keys res)"
    proof
      fix v assume "v \<in> set q'"
      then consider "v \<in> set q" | "v \<in> fst ` set items" using si(4) by auto
      then show "v \<in> set (keys res)"
      proof cases
        case 1
        then show ?thesis using "2.prems"(5) by auto
      next
        case 2
        then have "map_of items v \<noteq> None" by (simp add: map_of_eq_None_iff)
        then have "get2 res u v \<noteq> None" using row by (simp add: get2_def)
        then have "get2 res v u \<noteq> None" using recip by blast
        then show ?thesis by (rule get2_keys)
      qed
    qed
    have cl: "\<forall>w \<in> set (keys par') - set q'. \<forall>v. 0 < cap res w v \<longrightarrow> v \<in> set (keys par')"
    proof (intro ballI allI impI)
      fix w v assume w: "w \<in> set (keys par') - set q'" and pos: "0 < cap res w v"
      then have wpar: "w \<in> set (keys par)" and wq: "w \<notin> set q" using si(5) si(3) False by auto
      show "v \<in> set (keys par')"
      proof (cases "w = u")
        case True
        then have "(v, cap res u v) \<in> set items" using cap_pos_item[OF row] pos by simp
        then show ?thesis using si(7) False pos True by auto
      next
        case False
        then have "w \<in> set (keys par) - set (u # q)" using wpar wq by simp
        then have "v \<in> set (keys par)" using "2.prems"(6) pos by blast
        then show ?thesis using si(2) by auto
      qed
    qed
    have bF: "b = False" using False by simp
    from "2.IH"[OF row sc[symmetric] refl bF wf recip si(1) q1 q2 cl]
    have "(\<exists>par''. bfs_loop res t par' q' = Inr (Some par'') \<and> bfs_tree res s par''
             \<and> t \<in> set (keys par'') \<and> t \<notin> set (keys par'))
       \<or> (bfs_loop res t par' q' = Inr None
             \<and> (\<exists>P. set (keys par') \<subseteq> P \<and> (t \<in> P \<longrightarrow> t \<in> set (keys par')) \<and> closed res P))"
      by simp
    then show ?thesis
    proof
      assume "\<exists>par''. bfs_loop res t par' q' = Inr (Some par'') \<and> bfs_tree res s par''
             \<and> t \<in> set (keys par'') \<and> t \<notin> set (keys par')"
      then show ?thesis using eq si(2) by auto
    next
      assume "bfs_loop res t par' q' = Inr None
             \<and> (\<exists>P. set (keys par') \<subseteq> P \<and> (t \<in> P \<longrightarrow> t \<in> set (keys par')) \<and> closed res P)"
      then obtain P where P: "bfs_loop res t par' q' = Inr None" "set (keys par') \<subseteq> P"
        "t \<in> P \<longrightarrow> t \<in> set (keys par')" "closed res P" by blast
      have "set (keys par) \<subseteq> P" using P(2) si(2) by auto
      moreover have "t \<in> P \<longrightarrow> t \<in> set (keys par)" using P(3) si(7) False by auto
      ultimately show ?thesis using eq P(1,4) by auto
    qed
  qed
qed

lemma bfs_augment_cases:
  assumes "res_ok res" "s \<in> set (keys res)"
  shows "(\<exists>pr xs. bfs_augment res s t = Some (Inr (Some pr)) \<and> s \<noteq> t \<and> chain (parent pr) t xs
            \<and> distinct xs \<and> last xs = s \<and> 0 < bottleneck pr \<and> path_ge res (bottleneck pr) xs)
       \<or> (bfs_augment res s t = Some (Inr None)
            \<and> (\<exists>P. s \<in> P \<and> (t \<in> P \<longrightarrow> t = s) \<and> closed res P))"
proof -
  have wf: "wf_dict2 res" and recip: "\<forall>a b. get2 res a b \<noteq> None \<longrightarrow> get2 res b a \<noteq> None"
    using assms(1) by (auto simp: res_ok_def)
  have tr: "bfs_tree res s [(s, None)]" by (rule bfs_tree.tree_root)
  have k0: "set (keys [(s, None :: node option)]) = {s}" by (simp add: keys_def)
  from bfs_loop_inv[OF wf recip tr, of "[s]" t] assms(2) k0
  consider par' where "bfs_loop res t [(s, None)] [s] = Inr (Some par')" "bfs_tree res s par'"
      "t \<in> set (keys par')" "t \<noteq> s"
    | P where "bfs_loop res t [(s, None)] [s] = Inr None" "s \<in> P" "t \<in> P \<longrightarrow> t = s" "closed res P"
    by auto
  then show ?thesis
  proof cases
    case 1
    from tree_chain[OF 1(2), of t] 1(3) obtain xs where
      xs: "chain par' t xs" "distinct xs" "last xs = s" "path_ge res 1 xs"
      by (auto simp: in_keys_iff)
    from chain_hd[OF xs(1)] obtain ys where ys: "xs = t # ys" by blast
    with xs(3) 1(4) have "2 \<le> length xs" by (cases ys) auto
    from path_min_Inf[OF xs(4) this] obtain m where
      m: "path_min res xs Inf = Fin m" "0 < m" "path_ge res m xs" by blast
    have "walk_bottleneck res par' t Inf = Some (Inr (Fin m))"
      using walk_bottleneck_chain[OF xs(1) xs(4), of Inf] m(1) by simp
    then have "bfs_augment res s t = Some (Inr (Some \<lparr>bottleneck = m, parent = par'\<rparr>))"
      unfolding bfs_augment_def 1(1) by simp
    then show ?thesis using xs m 1(4) by auto
  next
    case 2
    then have "bfs_augment res s t = Some (Inr None)" unfolding bfs_augment_def by simp
    then show ?thesis using 2 by auto
  qed
qed

subsection \<open>The loop\<close>

lemma row_sum_nonneg:
  assumes "wf_dict2 res" "\<forall>a b. 0 \<le> cap res a b"
  shows "0 \<le> row_sum res n"
proof (cases "map_of res n")
  case None
  then show ?thesis by (simp add: row_sum_def)
next
  case (Some row)
  have "\<forall>x \<in> set row. 0 \<le> snd x"
    using row_item_cap[OF assms(1) Some] assms(2) by (metis prod.collapse)
  then have "0 \<le> sum_list (map snd row)" by (intro sum_list_nonneg) auto
  then show ?thesis using Some by (simp add: row_sum_def)
qed

lemma res_ok_shape:
  assumes "res_ok res" "shape res' = shape res" "\<forall>a b. 0 \<le> cap res' a b"
  shows "res_ok res'"
  using assms shape_wf[OF assms(2)] shape_present[OF assms(2)]
  by (simp add: res_ok_def)

lemma augment_loop_correct:
  assumes "res_ok res" "s \<in> set (keys res)"
  shows "\<exists>tf1 res'. augment_loop s t res tf = Some (Inr (tf1, res'))
     \<and> res_ok res' \<and> shape res' = shape res
     \<and> (\<forall>a b. cap res' a b + cap res' b a = cap res a b + cap res b a)
     \<and> (\<forall>n. n \<noteq> s \<longrightarrow> n \<noteq> t \<longrightarrow> row_sum res' n = row_sum res n)
     \<and> tf1 - tf = row_sum res s - row_sum res' s
     \<and> tf \<le> tf1
     \<and> (\<exists>P. s \<in> P \<and> (t \<in> P \<longrightarrow> t = s) \<and> closed res' P)
     \<and> (s = t \<or> t \<notin> set (keys res) \<longrightarrow> res' = res \<and> tf1 = tf)"
  using assms
proof (induction "nat (row_sum res s)" arbitrary: res tf rule: less_induct)
  case less
  from bfs_augment_cases[OF less.prems, of t]
  consider pr xs where "bfs_augment res s t = Some (Inr (Some pr))" "s \<noteq> t" "chain (parent pr) t xs"
      "distinct xs" "last xs = s" "0 < bottleneck pr" "path_ge res (bottleneck pr) xs"
    | P where "bfs_augment res s t = Some (Inr None)" "s \<in> P" "t \<in> P \<longrightarrow> t = s" "closed res P"
    by blast
  then show ?case
  proof cases
    case 2
    have "augment_loop s t res tf = Some (Inr (tf, res))"
      by (subst augment_loop.simps) (simp add: 2(1))
    then show ?thesis using less.prems(1) 2 by auto
  next
    case 1
    let ?aug = "bottleneck pr"
    have nn: "\<forall>a b. 0 \<le> cap res a b"
      and recip: "\<forall>a b. get2 res a b \<noteq> None \<longrightarrow> get2 res b a \<noteq> None"
      and wf: "wf_dict2 res"
      using less.prems(1) by (auto simp: res_ok_def)
    from push_flow_chain[OF 1(3,4,7,6) nn recip] obtain res1 where
      p: "push_flow (parent pr) ?aug t res = Some (Inr res1)" and sh1: "shape res1 = shape res"
      and nn1: "\<forall>a b. 0 \<le> cap res1 a b"
      and sk1: "\<And>a b. cap res1 a b + cap res1 b a = cap res a b + cap res b a"
      and rs1: "\<And>n. row_sum res1 n = row_sum res n + (if n = t then ?aug else 0) - (if n = last xs then ?aug else 0)"
      by blast
    have ok1: "res_ok res1" by (rule res_ok_shape[OF less.prems(1) sh1 nn1])
    have k1: "s \<in> set (keys res1)" using shape_keys[OF sh1] less.prems(2) by simp
    have rss: "row_sum res1 s = row_sum res s - ?aug" using rs1[of s] 1(2,5) by simp
    have "0 \<le> row_sum res1 s" using ok1 by (auto simp: res_ok_def intro: row_sum_nonneg)
    then have dec: "nat (row_sum res1 s) < nat (row_sum res s)" using rss 1(6) by simp
    from less.hyps[OF dec ok1 k1, of "tf + ?aug"] obtain tf1 res' where
      r: "augment_loop s t res1 (tf + ?aug) = Some (Inr (tf1, res'))"
      and ok: "res_ok res'" and sh: "shape res' = shape res1"
      and sk: "\<And>a b. cap res' a b + cap res' b a = cap res1 a b + cap res1 b a"
      and cons: "\<And>n. n \<noteq> s \<Longrightarrow> n \<noteq> t \<Longrightarrow> row_sum res' n = row_sum res1 n"
      and tot: "tf1 - (tf + ?aug) = row_sum res1 s - row_sum res' s"
      and le: "tf + ?aug \<le> tf1"
      and cut: "\<exists>P. s \<in> P \<and> (t \<in> P \<longrightarrow> t = s) \<and> closed res' P"
      by blast
    have "augment_loop s t res tf = Some (Inr (tf1, res'))"
      by (subst augment_loop.simps) (simp add: 1(1) p r)
    moreover have "shape res' = shape res" using sh sh1 by simp
    moreover have "\<forall>a b. cap res' a b + cap res' b a = cap res a b + cap res b a"
      using sk sk1 by simp
    moreover have "\<forall>n. n \<noteq> s \<longrightarrow> n \<noteq> t \<longrightarrow> row_sum res' n = row_sum res n"
      using cons rs1 1(5) by simp
    moreover have "tf1 - tf = row_sum res s - row_sum res' s" using tot rss by simp
    moreover have "tf \<le> tf1" using le 1(6) by simp
    moreover have "t \<in> set (keys res)"
    proof -
      from chain_hd[OF 1(3)] obtain ys where ys: "xs = t # ys" by blast
      with 1(5) 1(2) obtain u zs where "ys = u # zs" by (cases ys) auto
      with ys 1(7) 1(6) have "0 < cap res u t" by simp
      from cap_pos_present[OF this] have "get2 res u t \<noteq> None" by auto
      then have "get2 res t u \<noteq> None" using recip by blast
      then show ?thesis by (rule get2_keys)
    qed
    ultimately show ?thesis using ok cut 1(2) by blast
  qed
qed

section \<open>From the graph to the flow matrix\<close>

subsection \<open>The residual graph satisfies the invariant\<close>

lemma wf_dict2_ensure_entry:
  assumes "wf_dict2 res"
  shows "wf_dict2 (ensure_entry v u res)"
proof -
  let ?r1 = "setdefault v [] res"
  have w1: "wf_dict2 ?r1" using assms by (rule wf_dict2_setdefault)
  obtain row where row: "map_of ?r1 v = Some row"
    by (cases "map_of ?r1 v") (auto simp: map_of_setdefault split: option.splits)
  have "distinct (keys row)" by (rule wf_dict2_row[OF w1 row])
  then have "distinct (keys (setdefault u 0 row))" by (auto simp: keys_setdefault)
  then have "wf_dict2 (AList.update v (setdefault u 0 row) ?r1)" by (rule wf_dict2_update[OF w1])
  then show ?thesis by (simp add: ensure_entry_def Let_def row)
qed

lemma wf_dict2_add_reverse: "wf_dict2 res \<Longrightarrow> wf_dict2 (add_reverse u vs res)"
  by (induction vs arbitrary: res) (simp_all add: wf_dict2_ensure_entry)

lemma wf_dict2_build_loop: "wf_dict2 res \<Longrightarrow> build_loop us res = Inr res' \<Longrightarrow> wf_dict2 res'"
proof (induction us arbitrary: res)
  case Nil
  then show ?case by simp
next
  case (Cons u us)
  from Cons.prems(2) obtain row where row: "map_of res u = Some row"
    and r: "build_loop us (add_reverse u (keys row) res) = Inr res'"
    by (auto split: option.splits)
  have "wf_dict2 (add_reverse u (keys row) res)" using Cons.prems(1) by (rule wf_dict2_add_reverse)
  then show ?case using r by (rule Cons.IH)
qed

lemma keys_add_reverse_upper: "set (keys (add_reverse u vs res)) \<subseteq> set (keys res) \<union> set vs"
proof (induction vs arbitrary: res)
  case Nil
  then show ?case by simp
next
  case (Cons v vs)
  have "set (keys (ensure_entry v u res)) \<subseteq> insert v (set (keys res))"
    by (auto simp: keys_ensure_entry)
  then show ?case using Cons.IH[of "ensure_entry v u res"] by auto
qed

lemma build_loop_keys:
  "build_loop us res = Inr res' \<Longrightarrow>
     set (keys res') \<subseteq> set (keys res) \<union> {v. \<exists>u. get2 res u v \<noteq> None}"
proof (induction us arbitrary: res)
  case Nil
  then show ?case by auto
next
  case (Cons u us)
  from Cons.prems obtain row where row: "map_of res u = Some row"
    and r: "build_loop us (add_reverse u (keys row) res) = Inr res'"
    by (auto split: option.splits)
  let ?r1 = "add_reverse u (keys row) res"
  have ukey: "u \<in> set (keys res)" using row by (simp add: in_keys_iff)
  have a: "set (keys ?r1) \<subseteq> set (keys res) \<union> {v. \<exists>u. get2 res u v \<noteq> None}"
    using keys_add_reverse_upper[of u "keys row" res] row_key_get2[OF row] by blast
  have b: "{v. \<exists>a. get2 ?r1 a v \<noteq> None} \<subseteq> set (keys res) \<union> {v. \<exists>u. get2 res u v \<noteq> None}"
    using ukey by (auto simp: get2_add_reverse split: option.splits if_splits)
  from Cons.IH[OF r] a b show ?case by blast
qed

lemma inner_keys_get2:
  assumes "wf_dict2 g"
  shows "inner_keys g = {v. \<exists>u. get2 g u v \<noteq> None}"
proof -
  have d: "distinct (map fst g)" using assms by (simp add: wf_dict2_def keys_def)
  have "v \<in> inner_keys g \<longleftrightarrow> (\<exists>u. get2 g u v \<noteq> None)" for v
  proof
    assume "v \<in> inner_keys g"
    then obtain u row where ur: "(u, row) \<in> set g" "v \<in> set (keys row)"
      by (auto simp: inner_keys_def)
    then have "map_of g u = Some row" using d by simp
    then have "get2 g u v \<noteq> None" using ur(2) by (simp add: get2_def in_keys_iff)
    then show "\<exists>u. get2 g u v \<noteq> None" by blast
  next
    assume "\<exists>u. get2 g u v \<noteq> None"
    then obtain u row where "map_of g u = Some row" "map_of row v \<noteq> None"
      by (auto simp: get2_def split: option.splits)
    then have "(u, row) \<in> set g" "v \<in> set (keys row)"
      by (auto simp: in_keys_iff dest: map_of_SomeD)
    then show "v \<in> inner_keys g" by (auto simp: inner_keys_def)
  qed
  then show ?thesis by auto
qed

lemma nonneg_caps_cap: "nonneg_caps g \<Longrightarrow> 0 \<le> cap g u v"
  by (auto simp: nonneg_caps_def cap_def get2_def list_all_iff split: option.splits dest!: map_of_SomeD)

lemma build_residual_ok:
  assumes "valid_graph (graph mf)"
  shows "\<exists>res. build_residual mf = Inr res \<and> res_ok res \<and> set (keys res) = graph_nodes (graph mf)
     \<and> (\<forall>a b. cap res a b = cap (graph mf) a b)
     \<and> (\<forall>a b. get2 res a b \<noteq> None \<longleftrightarrow> get2 (graph mf) a b \<noteq> None \<or> get2 (graph mf) b a \<noteq> None)"
proof -
  let ?g = "graph mf"
  have wf: "wf_dict2 ?g" and nn: "nonneg_caps ?g" using assms by (auto simp: valid_graph_def)
  from build_residual_spec[of mf] obtain res where
    r: "build_residual mf = Inr res" and k: "set (keys ?g) \<subseteq> set (keys res)"
    and g: "\<And>a b. get2 res a b =
           (case get2 ?g a b of Some c \<Rightarrow> Some c
            | None \<Rightarrow> if get2 ?g b a \<noteq> None then Some 0 else None)"
    by blast
  have pres: "get2 res a b \<noteq> None \<longleftrightarrow> get2 ?g a b \<noteq> None \<or> get2 ?g b a \<noteq> None" for a b
    unfolding g by (auto split: option.splits)
  have capeq: "cap res a b = cap ?g a b" for a b
    unfolding cap_def g by (auto split: option.splits)
  have wfr: "wf_dict2 res" using r wf by (auto simp: build_residual_def intro: wf_dict2_build_loop)
  have ok: "res_ok res"
    unfolding res_ok_def using wfr pres capeq nonneg_caps_cap[OF nn] by auto
  have "set (keys res) \<subseteq> set (keys ?g) \<union> {v. \<exists>u. get2 ?g u v \<noteq> None}"
    using build_loop_keys[of "keys ?g" ?g res] r by (simp add: build_residual_def)
  moreover have "{v. \<exists>u. get2 ?g u v \<noteq> None} \<subseteq> set (keys res)"
    using pres get2_keys[of res] by blast
  ultimately have "set (keys res) = graph_nodes ?g"
    using k by (auto simp: graph_nodes_def inner_keys_get2[OF wf])
  then show ?thesis using r ok capeq pres by blast
qed

subsection \<open>The flow matrix\<close>

lemma get2_setdefault_empty: "get2 (setdefault u [] fm) a b = get2 fm a b"
  by (auto simp: get2_def map_of_setdefault split: option.splits)

lemma flow_row_spec:
  assumes "distinct (keys row)" "\<forall>(v, c) \<in> set row. get2 res u v \<noteq> None"
  shows "\<exists>fm'. flow_row u row res fm = Inr fm'
     \<and> (\<forall>a b. get2 fm' a b =
           (if a = u then (case map_of row b of Some c \<Rightarrow> Some (clamp0 (c - cap res u b))
                           | None \<Rightarrow> get2 fm u b)
            else get2 fm a b))
     \<and> (wf_dict2 fm \<longrightarrow> wf_dict2 fm')
     \<and> set (keys fm') \<subseteq> insert u (set (keys fm))"
  using assms
proof (induction row arbitrary: fm)
  case Nil
  then show ?case by auto
next
  case (Cons a row)
  obtain v c where a: "a = (v, c)" by (cases a)
  have d: "distinct (keys row)" and vnin: "map_of row v = None"
    using Cons.prems(1) by (auto simp: a keys_def map_of_eq_None_iff)
  have pr: "\<forall>(v, c) \<in> set row. get2 res u v \<noteq> None" using Cons.prems(2) by auto
  from Cons.prems(2) obtain cr where cr: "get2 res u v = Some cr" by (auto simp: a)
  then obtain r where r: "map_of res u = Some r" "map_of r v = Some cr"
    by (auto simp: get2_def split: option.splits)
  let ?fm1 = "setdefault u [] fm"
  obtain frow where frow: "map_of ?fm1 u = Some frow"
    by (cases "map_of ?fm1 u") (auto simp: map_of_setdefault split: option.splits)
  let ?x = "clamp0 (c - cr)"
  let ?fm2 = "AList.update u (AList.update v ?x frow) ?fm1"
  have step: "flow_row u (a # row) res fm = flow_row u row res ?fm2"
    by (simp add: a r frow Let_def clamp0_def)
  have g2: "get2 ?fm2 x y = (if x = u \<and> y = v then Some ?x else get2 fm x y)" for x y
    using frow by (auto simp: get2_def update_conv' map_of_setdefault split: option.splits)
  have wf2: "wf_dict2 ?fm2" if "wf_dict2 fm"
  proof -
    have w1: "wf_dict2 ?fm1" using that by (rule wf_dict2_setdefault)
    have "distinct (keys frow)" by (rule wf_dict2_row[OF w1 frow])
    then have "distinct (keys (AList.update v ?x frow))" by (simp add: keys_def distinct_update)
    then show ?thesis by (rule wf_dict2_update[OF w1])
  qed
  have k2: "set (keys ?fm2) \<subseteq> insert u (set (keys fm))"
    by (auto simp: keys_update keys_setdefault split: if_splits)
  from Cons.IH[OF d pr, of ?fm2] obtain fm' where
    f: "flow_row u row res ?fm2 = Inr fm'"
    and g: "\<And>x y. get2 fm' x y =
           (if x = u then (case map_of row y of Some c \<Rightarrow> Some (clamp0 (c - cap res u y))
                           | None \<Rightarrow> get2 ?fm2 u y)
            else get2 ?fm2 x y)"
    and w: "wf_dict2 ?fm2 \<longrightarrow> wf_dict2 fm'"
    and k: "set (keys fm') \<subseteq> insert u (set (keys ?fm2))"
    by blast
  have "get2 fm' x y =
           (if x = u then (case map_of (a # row) y of Some c \<Rightarrow> Some (clamp0 (c - cap res u y))
                           | None \<Rightarrow> get2 fm u y)
            else get2 fm x y)" for x y
    unfolding g g2 using vnin cap_get2[OF cr] by (auto simp: a split: option.splits)
  then show ?case using step f w wf2 k k2 by auto
qed

lemma flow_rows_spec:
  assumes "wf_dict2 g" "\<forall>a b. get2 g a b \<noteq> None \<longrightarrow> get2 res a b \<noteq> None"
  shows "\<exists>fm'. flow_rows g res fm = Inr fm'
     \<and> (\<forall>a b. get2 fm' a b =
           (case get2 g a b of Some c \<Rightarrow> Some (clamp0 (c - cap res a b)) | None \<Rightarrow> get2 fm a b))
     \<and> (wf_dict2 fm \<longrightarrow> wf_dict2 fm')
     \<and> set (keys fm') \<subseteq> set (keys g) \<union> set (keys fm)"
  using assms
proof (induction g arbitrary: fm)
  case Nil
  then show ?case by (simp add: get2_def keys_def)
next
  case (Cons p g)
  obtain u row where p: "p = (u, row)" by (cases p)
  have wfg: "wf_dict2 g" and dr: "distinct (keys row)" and unin: "map_of g u = None"
    using Cons.prems(1) by (auto simp: wf_dict2_def p keys_def map_of_eq_None_iff)
  have g_of: "get2 (p # g) a b = (if a = u then map_of row b else get2 g a b)" for a b
    by (simp add: get2_def p)
  have gu: "get2 g u b = None" for b using unin by (simp add: get2_def)
  have pr: "\<forall>(v, c) \<in> set row. get2 res u v \<noteq> None"
  proof -
    have "get2 (p # g) u v \<noteq> None" if "(v, c) \<in> set row" for v c
      using that dr by (simp add: g_of keys_def)
    then show ?thesis using Cons.prems(2) by blast
  qed
  have pg: "\<forall>a b. get2 g a b \<noteq> None \<longrightarrow> get2 res a b \<noteq> None"
  proof (intro allI impI)
    fix a b assume h: "get2 g a b \<noteq> None"
    then have "a \<noteq> u" using gu by auto
    then have "get2 (p # g) a b \<noteq> None" using h by (simp add: g_of)
    then show "get2 res a b \<noteq> None" using Cons.prems(2) by blast
  qed
  from flow_row_spec[OF dr pr, of fm] obtain fm1 where
    f1: "flow_row u row res fm = Inr fm1"
    and g1: "\<And>a b. get2 fm1 a b =
           (if a = u then (case map_of row b of Some c \<Rightarrow> Some (clamp0 (c - cap res u b))
                           | None \<Rightarrow> get2 fm u b)
            else get2 fm a b)"
    and w1: "wf_dict2 fm \<longrightarrow> wf_dict2 fm1"
    and k1: "set (keys fm1) \<subseteq> insert u (set (keys fm))"
    by blast
  from Cons.IH[OF wfg pg, of fm1] obtain fm' where
    f: "flow_rows g res fm1 = Inr fm'"
    and g': "\<And>a b. get2 fm' a b =
           (case get2 g a b of Some c \<Rightarrow> Some (clamp0 (c - cap res a b)) | None \<Rightarrow> get2 fm1 a b)"
    and w: "wf_dict2 fm1 \<longrightarrow> wf_dict2 fm'"
    and k: "set (keys fm') \<subseteq> set (keys g) \<union> set (keys fm1)"
    by blast
  have "flow_rows (p # g) res fm = Inr fm'" by (simp add: p f1 f)
  moreover have "get2 fm' a b =
           (case get2 (p # g) a b of Some c \<Rightarrow> Some (clamp0 (c - cap res a b)) | None \<Rightarrow> get2 fm a b)" for a b
    unfolding g' g1 g_of using gu by (auto split: option.splits)
  moreover have "set (keys fm') \<subseteq> set (keys (p # g)) \<union> set (keys fm)"
    using k k1 by (auto simp: keys_def p)
  ultimately show ?case using w w1 by blast
qed

section \<open>Sums over dictionaries and cuts\<close>

subsection \<open>Sums over dictionaries\<close>

lemma alist_sum:
  fixes f :: "'v \<Rightarrow> int"
  assumes "distinct (map fst al)"
  shows "sum_list (map (\<lambda>(k, v). f v) al)
       = (\<Sum>k \<in> fst ` set al. case map_of al k of None \<Rightarrow> 0 | Some v \<Rightarrow> f v)"
  using assms
proof (induction al)
  case Nil
  then show ?case by simp
next
  case (Cons a al)
  obtain k v where a: "a = (k, v)" by (cases a)
  have knin: "k \<notin> fst ` set al" and d: "distinct (map fst al)" using Cons.prems by (auto simp: a)
  have "(\<Sum>k' \<in> fst ` set al. case map_of (a # al) k' of None \<Rightarrow> 0 | Some v \<Rightarrow> f v)
      = (\<Sum>k' \<in> fst ` set al. case map_of al k' of None \<Rightarrow> 0 | Some v \<Rightarrow> f v)"
    using knin by (intro sum.cong) (auto simp: a)
  then show ?case using knin Cons.IH[OF d] by (simp add: a)
qed

lemma row_sum_as_sum:
  assumes "wf_dict2 d" "finite V" "{v. get2 d n v \<noteq> None} \<subseteq> V"
  shows "row_sum d n = (\<Sum>v \<in> V. cap d n v)"
proof (cases "map_of d n")
  case None
  then show ?thesis by (simp add: row_sum_def cap_def get2_def)
next
  case (Some row)
  have dr: "distinct (map fst row)" using wf_dict2_row[OF assms(1) Some] by (simp add: keys_def)
  have sub: "fst ` set row \<subseteq> V"
    using assms(3) Some by (auto simp: get2_def map_of_eq_None_iff)
  have m: "map snd row = map (\<lambda>(k, v). v) row" by (induction row) auto
  have "row_sum d n = sum_list (map snd row)" using Some by (simp add: row_sum_def)
  also have "\<dots> = sum_list (map (\<lambda>(k, v). v) row)" by (simp only: m)
  also have "\<dots> = (\<Sum>k \<in> fst ` set row. case map_of row k of None \<Rightarrow> 0 | Some v \<Rightarrow> v)"
    by (rule alist_sum[OF dr])
  also have "\<dots> = (\<Sum>k \<in> fst ` set row. cap d n k)"
    using Some by (simp add: cap_def get2_def)
  also have "\<dots> = (\<Sum>k \<in> V. cap d n k)"
  proof (rule sum.mono_neutral_left[OF assms(2) sub])
    show "\<forall>i \<in> V - fst ` set row. cap d n i = 0"
    proof
      fix i assume "i \<in> V - fst ` set row"
      then have "map_of row i = None" by (simp add: map_of_eq_None_iff)
      then show "cap d n i = 0" using Some by (simp add: cap_def get2_def)
    qed
  qed
  finally show ?thesis .
qed

lemma outflow_row_sum: "outflow fm n = row_sum fm n"
  by (simp add: outflow_def row_sum_def)

lemma inflow_as_sum:
  assumes "wf_dict2 d" "finite V" "set (keys d) \<subseteq> V"
  shows "inflow d n = (\<Sum>u \<in> V. cap d u n)"
proof -
  have dd: "distinct (map fst d)" using assms(1) by (simp add: wf_dict2_def keys_def)
  have "inflow d n = (\<Sum>k \<in> fst ` set d. case map_of d k of None \<Rightarrow> 0
                        | Some row \<Rightarrow> (case map_of row n of None \<Rightarrow> 0 | Some f \<Rightarrow> f))"
    unfolding inflow_def by (rule alist_sum[OF dd])
  also have "\<dots> = (\<Sum>k \<in> fst ` set d. cap d k n)"
    by (intro sum.cong) (auto simp: cap_def get2_def split: option.splits)
  also have "\<dots> = (\<Sum>k \<in> V. cap d k n)"
  proof (rule sum.mono_neutral_left[OF assms(2)])
    show "fst ` set d \<subseteq> V" using assms(3) by (simp add: keys_def)
    show "\<forall>i \<in> V - fst ` set d. cap d i n = 0"
    proof
      fix i assume "i \<in> V - fst ` set d"
      then have "map_of d i = None" by (simp add: map_of_eq_None_iff)
      then show "cap d i n = 0" by (simp add: cap_def get2_def)
    qed
  qed
  finally show ?thesis .
qed

subsection \<open>The cut lemma\<close>

lemma antisym_double_sum_zero:
  fixes y :: "node \<Rightarrow> node \<Rightarrow> 'a::linordered_idom"
  assumes "\<And>a b. y a b = - y b a"
  shows "(\<Sum>u \<in> S. \<Sum>v \<in> S. y u v) = 0"
proof -
  have "(\<Sum>u \<in> S. \<Sum>v \<in> S. y u v) = (\<Sum>u \<in> S. \<Sum>v \<in> S. - y v u)"
    by (intro sum.cong refl assms)
  also have "\<dots> = - (\<Sum>u \<in> S. \<Sum>v \<in> S. y v u)" by (simp add: sum_negf)
  also have "(\<Sum>u \<in> S. \<Sum>v \<in> S. y v u) = (\<Sum>u \<in> S. \<Sum>v \<in> S. y u v)" by (rule sum.swap)
  finally show ?thesis by simp
qed

lemma net_flow_across_cut:
  fixes y :: "node \<Rightarrow> node \<Rightarrow> 'a::linordered_idom"
  assumes "finite V" "S \<subseteq> V" "s \<in> S" "t \<notin> S"
    "\<And>a b. y a b = - y b a" "\<And>n. n \<in> V \<Longrightarrow> n \<noteq> s \<Longrightarrow> n \<noteq> t \<Longrightarrow> (\<Sum>v \<in> V. y n v) = 0"
  shows "(\<Sum>v \<in> V. y s v) = (\<Sum>u \<in> S. \<Sum>v \<in> V - S. y u v)"
proof -
  have fS: "finite S" using assms(1,2) by (rule rev_finite_subset)
  have "(\<Sum>u \<in> S. \<Sum>v \<in> V. y u v) = (\<Sum>v \<in> V. y s v) + (\<Sum>u \<in> S - {s}. \<Sum>v \<in> V. y u v)"
    by (rule sum.remove[OF fS assms(3)])
  also have "(\<Sum>u \<in> S - {s}. \<Sum>v \<in> V. y u v) = 0"
    using assms(2,4,6) by (intro sum.neutral) auto
  finally have A: "(\<Sum>u \<in> S. \<Sum>v \<in> V. y u v) = (\<Sum>v \<in> V. y s v)" by simp
  have "(\<Sum>u \<in> S. \<Sum>v \<in> V. y u v) = (\<Sum>u \<in> S. (\<Sum>v \<in> V - S. y u v) + (\<Sum>v \<in> S. y u v))"
    by (intro sum.cong refl sum.subset_diff[OF assms(2,1)])
  also have "\<dots> = (\<Sum>u \<in> S. \<Sum>v \<in> V - S. y u v) + (\<Sum>u \<in> S. \<Sum>v \<in> S. y u v)"
    by (rule sum.distrib)
  also have "(\<Sum>u \<in> S. \<Sum>v \<in> S. y u v) = 0" by (rule antisym_double_sum_zero[OF assms(5)])
  finally show ?thesis using A by simp
qed

section \<open>The specification of the solver\<close>

lemma finite_graph_nodes: "finite (graph_nodes g)"
  by (simp add: graph_nodes_def finite_inner_keys)

lemma res_row_sum:
  assumes "res_ok res"
  shows "row_sum res n = (\<Sum>v \<in> set (keys res). cap res n v)"
proof (rule row_sum_as_sum)
  show "wf_dict2 res" using assms by (simp add: res_ok_def)
  show "finite (set (keys res))" by simp
  show "{v. get2 res n v \<noteq> None} \<subseteq> set (keys res)"
  proof
    fix v assume "v \<in> {v. get2 res n v \<noteq> None}"
    then have "get2 res v n \<noteq> None" using assms by (simp add: res_ok_def)
    then show "v \<in> set (keys res)" by (rule get2_keys)
  qed
qed

lemma edmonds_karp_spec:
  assumes "valid_graph (graph mf)" "s \<in> graph_nodes (graph mf)"
  shows "\<exists>tf fm res. edmonds_karp mf s t = Some (Inr (tf, fm, res))
     \<and> ek_post (graph mf) s t tf fm res
     \<and> (s = t \<or> t \<notin> graph_nodes (graph mf) \<longrightarrow> tf = 0 \<and> build_residual mf = Inr res)"
proof -
  let ?g = "graph mf" and ?V = "graph_nodes (graph mf)"
  have wfg: "wf_dict2 ?g" using assms(1) by (simp add: valid_graph_def)
  from build_residual_ok[OF assms(1)] obtain res0 where
    b: "build_residual mf = Inr res0" and ok0: "res_ok res0" and k0: "set (keys res0) = ?V"
    and c0: "\<And>a b. cap res0 a b = cap ?g a b"
    and p0: "\<And>a b. get2 res0 a b \<noteq> None \<longleftrightarrow> get2 ?g a b \<noteq> None \<or> get2 ?g b a \<noteq> None"
    by blast
  have s0: "s \<in> set (keys res0)" using assms(2) k0 by simp
  from augment_loop_correct[OF ok0 s0, of t 0] obtain tf res where
    a: "augment_loop s t res0 0 = Some (Inr (tf, res))"
    and ok: "res_ok res" and sh: "shape res = shape res0"
    and sk: "\<And>a b. cap res a b + cap res b a = cap res0 a b + cap res0 b a"
    and cons: "\<And>n. n \<noteq> s \<Longrightarrow> n \<noteq> t \<Longrightarrow> row_sum res n = row_sum res0 n"
    and tot: "tf - 0 = row_sum res0 s - row_sum res s"
    and le: "0 \<le> tf"
    and cut: "\<exists>P. s \<in> P \<and> (t \<in> P \<longrightarrow> t = s) \<and> closed res P"
    and same: "s = t \<or> t \<notin> set (keys res0) \<longrightarrow> res = res0 \<and> tf = 0"
    by blast
  have k: "set (keys res) = ?V" using shape_keys[OF sh] k0 by simp
  have pres: "get2 res a b \<noteq> None \<longleftrightarrow> get2 ?g a b \<noteq> None \<or> get2 ?g b a \<noteq> None" for a b
    using shape_present[OF sh, of a b] p0[of a b] by simp
  have rs0: "row_sum res0 n = (\<Sum>v \<in> ?V. cap ?g n v)" for n
    using res_row_sum[OF ok0, of n] by (simp add: k0 c0)
  have rs: "row_sum res n = (\<Sum>v \<in> ?V. cap res n v)" for n
    using res_row_sum[OF ok, of n] by (simp add: k)
  have diff: "(\<Sum>v \<in> ?V. cap ?g n v - cap res n v) = row_sum res0 n - row_sum res n" for n
    by (simp add: rs0 rs sum_subtractf)
  have gp: "\<forall>a b. get2 ?g a b \<noteq> None \<longrightarrow> get2 res a b \<noteq> None" using pres by blast
  from flow_rows_spec[OF wfg gp, of "[]"] obtain fm where
    f: "flow_rows ?g res [] = Inr fm"
    and gf: "\<And>a b. get2 fm a b =
           (case get2 ?g a b of Some c \<Rightarrow> Some (clamp0 (c - cap res a b)) | None \<Rightarrow> get2 [] a b)"
    and wfm: "wf_dict2 [] \<longrightarrow> wf_dict2 fm"
    and kfm: "set (keys fm) \<subseteq> set (keys ?g) \<union> set (keys ([]::graph))"
    by blast
  have e: "edmonds_karp mf s t = Some (Inr (tf, fm, res))"
    by (simp add: edmonds_karp_def b a f)
  have 1: "\<forall>a b. 0 \<le> cap res a b" using ok by (simp add: res_ok_def)
  have 2: "\<forall>a b. cap res a b + cap res b a = cap ?g a b + cap ?g b a" using sk c0 by simp
  have 3: "\<forall>n. n \<noteq> s \<longrightarrow> n \<noteq> t \<longrightarrow> (\<Sum>v \<in> ?V. cap ?g n v - cap res n v) = 0"
    using cons by (simp add: diff)
  have 4: "tf = (\<Sum>v \<in> ?V. cap ?g s v - cap res s v)" using tot by (simp add: diff)
  have 5: "\<forall>a b. get2 fm a b =
            (case get2 ?g a b of Some c \<Rightarrow> Some (clamp0 (c - cap res a b)) | None \<Rightarrow> None)"
  proof -
    have "get2 [] a b = None" for a b by (simp add: get2_def)
    then show ?thesis using gf by (auto split: option.splits)
  qed
  have 6: "wf_dict2 fm" "set (keys fm) \<subseteq> set (keys ?g)"
    using wfm kfm by (auto simp: wf_dict2_def keys_def)
  have 7: "s = t \<or> t \<notin> ?V \<longrightarrow> tf = 0 \<and> build_residual mf = Inr res"
    using same b k0 by auto
  have "ek_post ?g s t tf fm res"
    unfolding ek_post_def using 1 2 pres 3 4 le cut 5 6 by blast
  then show ?thesis using e 7 by blast
qed

lemma ek_postD:
  assumes "ek_post g s t tf fm res"
  shows "\<forall>a b. 0 \<le> cap res a b"
    and "\<forall>a b. cap res a b + cap res b a = cap g a b + cap g b a"
    and "\<forall>a b. get2 res a b \<noteq> None \<longleftrightarrow> get2 g a b \<noteq> None \<or> get2 g b a \<noteq> None"
    and "\<forall>n. n \<noteq> s \<longrightarrow> n \<noteq> t \<longrightarrow> (\<Sum>v \<in> graph_nodes g. cap g n v - cap res n v) = 0"
    and "tf = (\<Sum>v \<in> graph_nodes g. cap g s v - cap res s v)"
    and "0 \<le> tf"
    and "\<exists>P. s \<in> P \<and> (t \<in> P \<longrightarrow> t = s) \<and> closed res P"
    and "\<forall>a b. get2 fm a b =
            (case get2 g a b of Some c \<Rightarrow> Some (clamp0 (c - cap res a b)) | None \<Rightarrow> None)"
    and "wf_dict2 fm" and "set (keys fm) \<subseteq> set (keys g)"
  using assms unfolding ek_post_def by blast+

lemma edmonds_karp_absent_source:
  assumes "valid_graph (graph mf)" "s \<notin> graph_nodes (graph mf)"
  shows "edmonds_karp mf s t = Some (Inl (KeyError s))"
proof -
  from build_residual_ok[OF assms(1)] obtain res0 where
    b: "build_residual mf = Inr res0" and k0: "set (keys res0) = graph_nodes (graph mf)"
    by blast
  have "map_of res0 s = None" using assms(2) k0 by (simp add: map_of_None_keys)
  then have "bfs_augment res0 s t = Some (Inl (KeyError s))" by (simp add: bfs_augment_def)
  then have "augment_loop s t res0 0 = Some (Inl (KeyError s))"
    by (subst augment_loop.simps) simp
  then show ?thesis by (simp add: edmonds_karp_def b)
qed

section \<open>Conservation of flow\<close>

lemma cap_flow_matrix:
  assumes "\<forall>a b. get2 fm a b =
            (case get2 g a b of Some c \<Rightarrow> Some (clamp0 (c - cap res a b)) | None \<Rightarrow> None)"
  shows "cap fm a b = (case get2 g a b of Some c \<Rightarrow> clamp0 (c - cap res a b) | None \<Rightarrow> 0)"
  using assms by (simp add: cap_def split: option.splits)

lemma net_of_flow_matrix:
  assumes nn: "\<forall>a b. 0 \<le> cap res a b"
    and sk: "\<forall>a b. cap res a b + cap res b a = cap g a b + cap g b a"
    and pres: "\<forall>a b. get2 res a b \<noteq> None \<longleftrightarrow> get2 g a b \<noteq> None \<or> get2 g b a \<noteq> None"
    and fm: "\<forall>a b. get2 fm a b =
            (case get2 g a b of Some c \<Rightarrow> Some (clamp0 (c - cap res a b)) | None \<Rightarrow> None)"
  shows "cap fm a b - cap fm b a = cap g a b - cap res a b"
proof -
  note cf = cap_flow_matrix[OF fm]
  have skab: "cap res a b + cap res b a = cap g a b + cap g b a" using sk by blast
  show ?thesis
  proof (cases "get2 g a b")
    case None
    note gab = None
    then have cg: "cap g a b = 0" by (simp add: cap_def)
    show ?thesis
    proof (cases "get2 g b a")
      case None
      then have "get2 res a b = None" using pres gab by blast
      then have "cap res a b = 0" by (simp add: cap_def)
      then show ?thesis using None gab cg by (simp add: cf)
    next
      case (Some c')
      then have "cap g b a = c'" by (simp add: cap_def)
      then have "c' - cap res b a = cap res a b" using skab cg by simp
      moreover have "0 \<le> cap res a b" using nn by blast
      ultimately show ?thesis using Some gab cg by (simp add: cf clamp0_def)
    qed
  next
    case (Some c)
    note gab = Some
    then have cg: "cap g a b = c" by (simp add: cap_def)
    show ?thesis
    proof (cases "get2 g b a")
      case None
      then have "cap g b a = 0" by (simp add: cap_def)
      then have "c - cap res a b = cap res b a" using skab cg by simp
      moreover have "0 \<le> cap res b a" using nn by blast
      ultimately show ?thesis using None gab cg by (simp add: cf clamp0_def)
    next
      case (Some c')
      then have "cap g b a = c'" by (simp add: cap_def)
      then have "c' - cap res b a = - (c - cap res a b)" using skab cg by simp
      then show ?thesis using Some gab cg by (simp add: cf clamp0_def)
    qed
  qed
qed

lemma keys_in_graph_nodes: "set (keys g) \<subseteq> graph_nodes g"
  by (simp add: graph_nodes_def)

lemma targets_in_graph_nodes: "wf_dict2 g \<Longrightarrow> get2 g u v \<noteq> None \<Longrightarrow> v \<in> graph_nodes g"
  by (auto simp: graph_nodes_def inner_keys_get2)

lemma flow_matrix_balance:
  assumes wfg: "wf_dict2 g"
    and nn: "\<forall>a b. 0 \<le> cap res a b"
    and sk: "\<forall>a b. cap res a b + cap res b a = cap g a b + cap g b a"
    and pres: "\<forall>a b. get2 res a b \<noteq> None \<longleftrightarrow> get2 g a b \<noteq> None \<or> get2 g b a \<noteq> None"
    and fm: "\<forall>a b. get2 fm a b =
            (case get2 g a b of Some c \<Rightarrow> Some (clamp0 (c - cap res a b)) | None \<Rightarrow> None)"
    and wfm: "wf_dict2 fm" and kfm: "set (keys fm) \<subseteq> set (keys g)"
  shows "outflow fm n = (\<Sum>v \<in> graph_nodes g. cap fm n v)"
    and "inflow fm n = (\<Sum>u \<in> graph_nodes g. cap fm u n)"
    and "outflow fm n - inflow fm n = (\<Sum>v \<in> graph_nodes g. cap g n v - cap res n v)"
proof -
  let ?V = "graph_nodes g"
  have sub: "{v. get2 fm n v \<noteq> None} \<subseteq> ?V"
  proof
    fix v assume "v \<in> {v. get2 fm n v \<noteq> None}"
    then have "get2 g n v \<noteq> None" using fm by (auto split: option.splits)
    then show "v \<in> ?V" by (rule targets_in_graph_nodes[OF wfg])
  qed
  show out: "outflow fm n = (\<Sum>v \<in> ?V. cap fm n v)"
    unfolding outflow_row_sum by (rule row_sum_as_sum[OF wfm finite_graph_nodes sub])
  show inn: "inflow fm n = (\<Sum>u \<in> ?V. cap fm u n)"
    using kfm keys_in_graph_nodes[of g] by (intro inflow_as_sum[OF wfm finite_graph_nodes]) auto
  have "outflow fm n - inflow fm n = (\<Sum>v \<in> ?V. cap fm n v - cap fm v n)"
    by (simp add: out inn sum_subtractf)
  also have "\<dots> = (\<Sum>v \<in> ?V. cap g n v - cap res n v)"
    by (intro sum.cong refl net_of_flow_matrix[OF nn sk pres fm])
  finally show "outflow fm n - inflow fm n = (\<Sum>v \<in> ?V. cap g n v - cap res n v)" .
qed

text \<open>
  Claim C3.  In the flow matrix that \<open>edmonds_karp(s, t)\<close> returns, every node other than
  \<open>s\<close> and \<open>t\<close> has its total inflow (the sum of \<open>flow_matrix[u][n]\<close> over all \<open>u\<close>) equal to
  its total outflow (the sum of \<open>flow_matrix[n][v]\<close> over all \<open>v\<close>).  The hypotheses say
  that the graph is a dictionary of dictionaries with non-negative capacities and that
  the source is one of its nodes, so that the call returns.
\<close>

theorem flow_conservation:
  assumes "valid_graph (graph mf)" "s \<in> graph_nodes (graph mf)"
  shows "\<exists>tf fm res. edmonds_karp mf s t = Some (Inr (tf, fm, res))
           \<and> (\<forall>n. n \<noteq> s \<and> n \<noteq> t \<longrightarrow> inflow fm n = outflow fm n)"
proof -
  let ?g = "graph mf"
  have wfg: "wf_dict2 ?g" using assms(1) by (simp add: valid_graph_def)
  from edmonds_karp_spec[OF assms, of t] obtain tf fm res where
    e: "edmonds_karp mf s t = Some (Inr (tf, fm, res))" and post: "ek_post ?g s t tf fm res"
    by blast
  note p = ek_postD[OF post]
  have "inflow fm n = outflow fm n" if "n \<noteq> s \<and> n \<noteq> t" for n
    using flow_matrix_balance(3)[OF wfg p(1,2,3,8,9,10), of n] p(4) that by simp
  then show ?thesis using e by blast
qed

lemma valid_diamond: "valid_graph (graph diamond)"
  by (simp add: diamond_def valid_graph_def wf_dict2_def nonneg_caps_def keys_def)

lemma nodes_diamond: "graph_nodes (graph diamond) = {''s'', ''a'', ''b'', ''t''}"
  by (auto simp: diamond_def graph_nodes_def inner_keys_def keys_def)

lemma s_in_diamond: "''s'' \<in> graph_nodes (graph diamond)"
  unfolding nodes_diamond by simp

lemma ek_diamond:
  "edmonds_karp diamond ''s'' ''t'' =
     Some (Inr (8, [(''s'', [(''a'', 3), (''b'', 5)]), (''a'', [(''t'', 3)]), (''b'', [(''t'', 5)])],
                [(''s'', [(''a'', 2), (''b'', 0)]), (''a'', [(''t'', 0), (''s'', 3)]),
                 (''b'', [(''t'', 5), (''s'', 5)]), (''t'', [(''a'', 3), (''b'', 5)])]))"
  by code_simp

theorem flow_conservation_witness:
  "valid_graph (graph diamond) \<and> ''s'' \<in> graph_nodes (graph diamond)
   \<and> (\<exists>tf fm res. edmonds_karp diamond ''s'' ''t'' = Some (Inr (tf, fm, res))
         \<and> inflow fm ''a'' = outflow fm ''a'' \<and> inflow fm ''a'' = 3)"
proof -
  from flow_conservation[OF valid_diamond s_in_diamond, of "''t''"]
  obtain tf fm res where e: "edmonds_karp diamond ''s'' ''t'' = Some (Inr (tf, fm, res))"
    and c: "\<forall>n. n \<noteq> ''s'' \<and> n \<noteq> ''t'' \<longrightarrow> inflow fm n = outflow fm n"
    by (elim exE conjE)
  have 1: "inflow fm ''a'' = outflow fm ''a''" using c by simp
  have fm: "fm = [(''s'', [(''a'', 3), (''b'', 5)]), (''a'', [(''t'', 3)]), (''b'', [(''t'', 5)])]"
    using e unfolding ek_diamond by simp
  have 2: "inflow fm ''a'' = 3" unfolding fm by (simp add: inflow_def)
  have "\<exists>tf fm res. edmonds_karp diamond ''s'' ''t'' = Some (Inr (tf, fm, res))
         \<and> inflow fm ''a'' = outflow fm ''a'' \<and> inflow fm ''a'' = 3"
    apply (rule exI[of _ tf])
    apply (rule exI[of _ fm])
    apply (rule exI[of _ res])
    apply (intro conjI)
      apply (rule e)
     apply (rule 1)
    apply (rule 2)
    done
  with valid_diamond s_in_diamond show ?thesis by (intro conjI)
qed

section \<open>Termination, capacities and endpoints\<close>

subsection \<open>The states of the loop\<close>

lemma loop_state_inv:
  assumes "res_ok res0" "loop_state s t res0 st"
  shows "res_ok (snd st) \<and> shape (snd st) = shape res0
       \<and> fst st = row_sum res0 s - row_sum (snd st) s \<and> 0 \<le> fst st"
  using assms(2)
proof (induction rule: loop_state.induct)
  case loop_start
  then show ?case using assms(1) by simp
next
  case (loop_step tf res pr res')
  then have ok: "res_ok res" and sh: "shape res = shape res0"
    and tf: "tf = row_sum res0 s - row_sum res s" and tf0: "0 \<le> tf" by auto
  have sk: "s \<in> set (keys res)"
  proof (rule ccontr)
    assume "s \<notin> set (keys res)"
    then have "map_of res s = None" by (simp add: map_of_None_keys)
    then have "bfs_augment res s t = Some (Inl (KeyError s))" by (simp add: bfs_augment_def)
    then show False using loop_step.hyps(2) by simp
  qed
  from bfs_augment_cases[OF ok sk, of t] loop_step.hyps(2)
  obtain xs where st: "s \<noteq> t" and ch: "chain (parent pr) t xs" and d: "distinct xs"
    and l: "last xs = s" and pos: "0 < bottleneck pr" and pg: "path_ge res (bottleneck pr) xs"
    by auto
  have nn: "\<forall>a b. 0 \<le> cap res a b"
    and recip: "\<forall>a b. get2 res a b \<noteq> None \<longrightarrow> get2 res b a \<noteq> None"
    using ok by (auto simp: res_ok_def)
  from push_flow_chain[OF ch d pg pos nn recip] loop_step.hyps(3)
  have sh1: "shape res' = shape res" and nn1: "\<forall>a b. 0 \<le> cap res' a b"
    and rs: "\<And>n. row_sum res' n = row_sum res n + (if n = t then bottleneck pr else 0)
                 - (if n = last xs then bottleneck pr else 0)"
    by auto
  have "res_ok res'" by (rule res_ok_shape[OF ok sh1 nn1])
  moreover have "row_sum res' s = row_sum res s - bottleneck pr" using rs[of s] st l by simp
  ultimately show ?case using sh sh1 tf tf0 pos by simp
qed

lemma loop_state_path:
  assumes "res_ok res0" "loop_state s t res0 (tf, res)" "bfs_augment res s t = Some (Inr (Some pr))"
  shows "0 < bottleneck pr \<and> (\<exists>xs. chain (parent pr) t xs \<and> last xs = s \<and> path_ge res (bottleneck pr) xs)"
proof -
  have ok: "res_ok res" using loop_state_inv[OF assms(1,2)] by simp
  have sk: "s \<in> set (keys res)"
  proof (rule ccontr)
    assume "s \<notin> set (keys res)"
    then have "map_of res s = None" by (simp add: map_of_None_keys)
    then have "bfs_augment res s t = Some (Inl (KeyError s))" by (simp add: bfs_augment_def)
    then show False using assms(3) by simp
  qed
  from bfs_augment_cases[OF ok sk, of t] assms(3) show ?thesis by auto
qed

lemma graph_row_sum:
  assumes "wf_dict2 g"
  shows "row_sum g n = (\<Sum>v \<in> graph_nodes g. cap g n v)"
proof (rule row_sum_as_sum[OF assms finite_graph_nodes])
  show "{v. get2 g n v \<noteq> None} \<subseteq> graph_nodes g"
    using targets_in_graph_nodes[OF assms] by auto
qed

lemma total_flow_bound:
  assumes "valid_graph g" "ek_post g s t tf fm res"
  shows "tf \<le> row_sum g s"
proof -
  have wf: "wf_dict2 g" using assms(1) by (simp add: valid_graph_def)
  note p = ek_postD[OF assms(2)]
  have "tf = (\<Sum>v \<in> graph_nodes g. cap g s v - cap res s v)" by (rule p(5))
  also have "\<dots> \<le> (\<Sum>v \<in> graph_nodes g. cap g s v)"
    using p(1) by (intro sum_mono) simp
  also have "\<dots> = row_sum g s" by (simp add: graph_row_sum[OF wf])
  finally show ?thesis .
qed

lemma loop_state_step_exists:
  assumes "res_ok res0" "loop_state s t res0 (tf, res)" "bfs_augment res s t = Some (Inr (Some pr))"
  shows "\<exists>res'. loop_state s t res0 (tf + bottleneck pr, res')"
proof -
  have ok: "res_ok res" using loop_state_inv[OF assms(1,2)] by simp
  have sk: "s \<in> set (keys res)"
  proof (rule ccontr)
    assume "s \<notin> set (keys res)"
    then have "map_of res s = None" by (simp add: map_of_None_keys)
    then have "bfs_augment res s t = Some (Inl (KeyError s))" by (simp add: bfs_augment_def)
    then show False using assms(3) by simp
  qed
  from bfs_augment_cases[OF ok sk, of t] assms(3)
  obtain xs where ch: "chain (parent pr) t xs" and d: "distinct xs"
    and pos: "0 < bottleneck pr" and pg: "path_ge res (bottleneck pr) xs"
    by auto
  have nn: "\<forall>a b. 0 \<le> cap res a b"
    and recip: "\<forall>a b. get2 res a b \<noteq> None \<longrightarrow> get2 res b a \<noteq> None"
    using ok by (auto simp: res_ok_def)
  from push_flow_chain[OF ch d pg pos nn recip] obtain res' where
    "push_flow (parent pr) (bottleneck pr) t res = Some (Inr res')" by blast
  from loop_state.loop_step[OF assms(2,3) this] show ?thesis by blast
qed

lemma build_residual_row_sum:
  assumes "valid_graph (graph mf)" "build_residual mf = Inr res0"
  shows "res_ok res0" and "row_sum res0 n = row_sum (graph mf) n"
proof -
  have wf: "wf_dict2 (graph mf)" using assms(1) by (simp add: valid_graph_def)
  from build_residual_ok[OF assms(1)] assms(2)
  have ok: "res_ok res0" and k: "set (keys res0) = graph_nodes (graph mf)"
    and c: "\<And>a b. cap res0 a b = cap (graph mf) a b" by auto
  show "res_ok res0" by (rule ok)
  show "row_sum res0 n = row_sum (graph mf) n"
    using res_row_sum[OF ok, of n] by (simp add: k c graph_row_sum[OF wf])
qed

lemma loop_state_bound:
  assumes "valid_graph (graph mf)" "build_residual mf = Inr res0" "loop_state s t res0 (tf, res)"
  shows "0 \<le> tf" and "tf \<le> row_sum (graph mf) s" and "\<forall>a b. 0 \<le> cap res a b"
proof -
  note b = build_residual_row_sum[OF assms(1,2)]
  from loop_state_inv[OF b(1) assms(3)]
  have ok: "res_ok res" and tf: "tf = row_sum res0 s - row_sum res s" and tf0: "0 \<le> tf" by auto
  show "0 \<le> tf" by (rule tf0)
  have "0 \<le> row_sum res s" using ok by (auto simp: res_ok_def intro: row_sum_nonneg)
  then show "tf \<le> row_sum (graph mf) s" using tf b(2)[of s] by simp
  show "\<forall>a b. 0 \<le> cap res a b" using ok by (simp add: res_ok_def)
qed

text \<open>
  Claim C2.  On every graph with non-negative capacities the call returns (with a result,
  or with the \<open>KeyError\<close> of an absent source), so the augmenting loop runs finitely
  often.  In every state of the loop a path returned by \<open>_bfs_augment\<close> has a strictly
  positive bottleneck, so the iteration strictly increases \<open>total_flow\<close>, and
  \<open>total_flow\<close> stays between 0 and the sum of the capacities of the edges that leave
  the source, before and after the iteration and in the result.
\<close>

theorem augmenting_loop_terminates:
  assumes "valid_graph (graph mf)"
  shows "(\<exists>r. edmonds_karp mf s t = Some r)
     \<and> (\<forall>tf fm res. edmonds_karp mf s t = Some (Inr (tf, fm, res))
            \<longrightarrow> 0 \<le> tf \<and> tf \<le> row_sum (graph mf) s)
     \<and> (\<forall>res0 tf res pr. build_residual mf = Inr res0 \<and> loop_state s t res0 (tf, res)
            \<and> bfs_augment res s t = Some (Inr (Some pr))
            \<longrightarrow> 0 < bottleneck pr \<and> 0 \<le> tf \<and> tf < tf + bottleneck pr
                \<and> tf + bottleneck pr \<le> row_sum (graph mf) s)"
proof -
  have 1: "\<exists>r. edmonds_karp mf s t = Some r"
  proof (cases "s \<in> graph_nodes (graph mf)")
    case True
    from edmonds_karp_spec[OF assms True, of t] show ?thesis by blast
  next
    case False
    from edmonds_karp_absent_source[OF assms False, of t] show ?thesis by blast
  qed
  have 2: "0 \<le> tf \<and> tf \<le> row_sum (graph mf) s"
    if e: "edmonds_karp mf s t = Some (Inr (tf, fm, res))" for tf fm res
  proof -
    have sin: "s \<in> graph_nodes (graph mf)"
    proof (rule ccontr)
      assume "s \<notin> graph_nodes (graph mf)"
      from edmonds_karp_absent_source[OF assms this, of t] e show False by simp
    qed
    from edmonds_karp_spec[OF assms sin, of t] e have post: "ek_post (graph mf) s t tf fm res" by auto
    show ?thesis using ek_postD(6)[OF post] total_flow_bound[OF assms post] by simp
  qed
  have 3: "0 < bottleneck pr \<and> 0 \<le> tf \<and> tf < tf + bottleneck pr
                \<and> tf + bottleneck pr \<le> row_sum (graph mf) s"
    if h: "build_residual mf = Inr res0 \<and> loop_state s t res0 (tf, res)
            \<and> bfs_augment res s t = Some (Inr (Some pr))" for res0 tf res pr
  proof -
    from h have b: "build_residual mf = Inr res0" and l: "loop_state s t res0 (tf, res)"
      and f: "bfs_augment res s t = Some (Inr (Some pr))" by auto
    note ok0 = build_residual_row_sum(1)[OF assms b]
    have pos: "0 < bottleneck pr" using loop_state_path[OF ok0 l f] by simp
    from loop_state_step_exists[OF ok0 l f] obtain res' where
      l': "loop_state s t res0 (tf + bottleneck pr, res')" by blast
    show ?thesis
      using pos loop_state_bound(1)[OF assms b l] loop_state_bound(2)[OF assms b l'] by simp
  qed
  show ?thesis using 1 2 3 by blast
qed

theorem augmenting_loop_terminates_witness:
  "valid_graph (graph diamond) \<and> (\<exists>r. edmonds_karp diamond ''s'' ''t'' = Some r)
   \<and> (0::int) \<le> 8 \<and> 8 \<le> row_sum (graph diamond) ''s''"
proof -
  note th = augmenting_loop_terminates[OF valid_diamond, of "''s''" "''t''"]
  have 1: "\<exists>r. edmonds_karp diamond ''s'' ''t'' = Some r" using th by (elim conjE)
  have 2: "\<forall>tf fm res. edmonds_karp diamond ''s'' ''t'' = Some (Inr (tf, fm, res))
            \<longrightarrow> 0 \<le> tf \<and> tf \<le> row_sum (graph diamond) ''s''" using th by (elim conjE)
  have 3: "(0::int) \<le> 8 \<and> 8 \<le> row_sum (graph diamond) ''s''"
    by (rule 2[rule_format, OF ek_diamond])
  show ?thesis using valid_diamond 1 3 by (intro conjI) (elim conjE, assumption)+
qed

text \<open>
  Claim C4.  The flow matrix that \<open>edmonds_karp\<close> returns has an entry exactly for the
  edges of the graph (and no repeated key), and the value \<open>f\<close> of the entry of an edge of
  capacity \<open>c\<close> satisfies \<open>0 \<le> f \<le> c\<close>.
\<close>

theorem flow_matrix_capacity:
  assumes "valid_graph (graph mf)" "s \<in> graph_nodes (graph mf)"
  shows "\<exists>tf fm res. edmonds_karp mf s t = Some (Inr (tf, fm, res))
     \<and> wf_dict2 fm
     \<and> (\<forall>u v. get2 fm u v \<noteq> None \<longleftrightarrow> get2 (graph mf) u v \<noteq> None)
     \<and> (\<forall>u v c f. get2 (graph mf) u v = Some c \<and> get2 fm u v = Some f \<longrightarrow> 0 \<le> f \<and> f \<le> c)"
proof -
  let ?g = "graph mf"
  have nng: "\<And>a b. 0 \<le> cap ?g a b"
    using assms(1) by (simp add: valid_graph_def nonneg_caps_cap)
  from edmonds_karp_spec[OF assms, of t] obtain tf fm res where
    e: "edmonds_karp mf s t = Some (Inr (tf, fm, res))" and post: "ek_post ?g s t tf fm res"
    by blast
  note p = ek_postD[OF post]
  have 1: "\<forall>u v. get2 fm u v \<noteq> None \<longleftrightarrow> get2 ?g u v \<noteq> None"
    using p(8) by (auto split: option.splits)
  have 2: "0 \<le> f \<and> f \<le> c" if h: "get2 ?g u v = Some c \<and> get2 fm u v = Some f" for u v c f
  proof -
    have "get2 fm u v = Some (clamp0 (c - cap res u v))" using p(8) h by auto
    then have f: "f = clamp0 (c - cap res u v)" using h by simp
    have "0 \<le> cap res u v" using p(1) by blast
    moreover have "0 \<le> c" using nng[of u v] h by (simp add: cap_def)
    ultimately show ?thesis unfolding f clamp0_def by simp
  qed
  show ?thesis using e p(9) 1 2 by blast
qed

theorem flow_matrix_capacity_witness:
  "valid_graph (graph diamond) \<and> ''s'' \<in> graph_nodes (graph diamond)
   \<and> (\<exists>tf fm res. edmonds_karp diamond ''s'' ''t'' = Some (Inr (tf, fm, res))
         \<and> get2 fm ''b'' ''t'' = Some 5 \<and> (0::int) \<le> 5 \<and> (5::int) \<le> 10)"
proof -
  from flow_matrix_capacity[OF valid_diamond s_in_diamond, of "''t''"]
  obtain tf fm res where e: "edmonds_karp diamond ''s'' ''t'' = Some (Inr (tf, fm, res))"
    and c: "\<forall>u v c f. get2 (graph diamond) u v = Some c \<and> get2 fm u v = Some f \<longrightarrow> 0 \<le> f \<and> f \<le> c"
    by (elim exE conjE)
  have fm: "fm = [(''s'', [(''a'', 3), (''b'', 5)]), (''a'', [(''t'', 3)]), (''b'', [(''t'', 5)])]"
    using e unfolding ek_diamond by simp
  have 1: "get2 fm ''b'' ''t'' = Some 5" unfolding fm by (simp add: get2_def)
  have 2: "get2 (graph diamond) ''b'' ''t'' = Some 10" by (simp add: diamond_def get2_def)
  have 3: "(0::int) \<le> 5 \<and> (5::int) \<le> 10" using c[rule_format, of "''b''" "''t''" 10 5] 1 2 by simp
  have "\<exists>tf fm res. edmonds_karp diamond ''s'' ''t'' = Some (Inr (tf, fm, res))
         \<and> get2 fm ''b'' ''t'' = Some 5 \<and> (0::int) \<le> 5 \<and> (5::int) \<le> 10"
    apply (rule exI[of _ tf])
    apply (rule exI[of _ fm])
    apply (rule exI[of _ res])
    apply (intro conjI)
       apply (rule e)
      apply (rule 1)
     apply (rule 3[THEN conjunct1])
    apply (rule 3[THEN conjunct2])
    done
  with valid_diamond s_in_diamond show ?thesis by (intro conjI)
qed

lemma valid_antiparallel: "valid_graph (graph antiparallel)"
  by (simp add: antiparallel_def valid_graph_def wf_dict2_def nonneg_caps_def keys_def)

lemma ek_antiparallel:
  "edmonds_karp antiparallel ''s'' ''t'' =
     Some (Inr (5, [(''s'', [(''b'', 5)]), (''b'', [(''a'', 5)]), (''a'', [(''b'', 0), (''t'', 5)])],
                [(''s'', [(''b'', 0)]), (''b'', [(''a'', 0), (''s'', 5)]),
                 (''a'', [(''b'', 8), (''t'', 0)]), (''t'', [(''a'', 5)])]))"
  by code_simp

text \<open>
  Claim C8 as the spec states it fails on a pair of opposite edges.  In the graph with the
  edges \<open>s\<rightarrow>b\<close> (5), \<open>b\<rightarrow>a\<close> (5), \<open>a\<rightarrow>b\<close> (3) and \<open>a\<rightarrow>t\<close> (5) the only augmenting path
  pushes 5 units along \<open>b\<rightarrow>a\<close>; the residual capacity of the opposite original edge
  \<open>a\<rightarrow>b\<close> becomes 8, the derived value \<open>3 - 8\<close> is negative, and the clamp turns it
  into 0.
\<close>

theorem clamp_alters_counterexample:
  "valid_graph (graph antiparallel)
   \<and> (\<exists>tf fm res. edmonds_karp antiparallel ''s'' ''t'' = Some (Inr (tf, fm, res))
         \<and> get2 (graph antiparallel) ''a'' ''b'' = Some 3
         \<and> 3 - cap res ''a'' ''b'' = - 5 \<and> get2 fm ''a'' ''b'' = Some 0)"
proof -
  have 1: "get2 (graph antiparallel) ''a'' ''b'' = Some 3" by (simp add: antiparallel_def get2_def)
  have 2: "3 - cap [(''s'', [(''b'', 0)]), (''b'', [(''a'', 0), (''s'', 5)]),
                 (''a'', [(''b'', 8), (''t'', 0)]), (''t'', [(''a'', 5)])] ''a'' ''b'' = - 5"
    by (simp add: cap_def get2_def)
  have 3: "get2 [(''s'', [(''b'', 5)]), (''b'', [(''a'', 5)]), (''a'', [(''b'', 0), (''t'', 5)])] ''a'' ''b'' = Some 0"
    by (simp add: get2_def)
  have "\<exists>tf fm res. edmonds_karp antiparallel ''s'' ''t'' = Some (Inr (tf, fm, res))
         \<and> get2 (graph antiparallel) ''a'' ''b'' = Some 3
         \<and> 3 - cap res ''a'' ''b'' = - 5 \<and> get2 fm ''a'' ''b'' = Some 0"
    apply (intro exI conjI)
       apply (rule ek_antiparallel)
      apply (rule 1)
     apply (rule 2)
    apply (rule 3)
    done
  with valid_antiparallel show ?thesis by (intro conjI)
qed

text \<open>
  Claim C8, amended.  In every state of the augmenting loop every residual capacity is
  non-negative, and the bottleneck of a path that the search returns in that state does
  not exceed the residual capacity of any edge of the path.  In the result, for every
  original edge \<open>(u, v)\<close> of capacity \<open>c\<close> whose reverse \<open>(v, u)\<close> is not an original
  edge, \<open>c - residual[u][v]\<close> is not negative and is the value the flow matrix holds:
  the clamp does not alter it.  (For an edge whose reverse is an original edge as well
  the difference can be negative, and the clamp then stores 0.)
\<close>

theorem residual_nonneg_throughout:
  assumes "valid_graph (graph mf)" "s \<in> graph_nodes (graph mf)"
  shows "(\<forall>res0 tf res. build_residual mf = Inr res0 \<and> loop_state s t res0 (tf, res)
            \<longrightarrow> (\<forall>a b. 0 \<le> cap res a b))
     \<and> (\<forall>res0 tf res pr. build_residual mf = Inr res0 \<and> loop_state s t res0 (tf, res)
            \<and> bfs_augment res s t = Some (Inr (Some pr))
            \<longrightarrow> (\<exists>xs. chain (parent pr) t xs \<and> last xs = s \<and> path_ge res (bottleneck pr) xs))
     \<and> (\<exists>tf fm res. edmonds_karp mf s t = Some (Inr (tf, fm, res))
            \<and> (\<forall>a b. 0 \<le> cap res a b)
            \<and> (\<forall>u v c. get2 (graph mf) u v = Some c \<and> get2 (graph mf) v u = None
                  \<longrightarrow> 0 \<le> c - cap res u v \<and> get2 fm u v = Some (c - cap res u v)))"
proof -
  let ?g = "graph mf"
  have 1: "\<forall>a b. 0 \<le> cap res a b"
    if "build_residual mf = Inr res0 \<and> loop_state s t res0 (tf, res)" for res0 tf res
    using loop_state_bound(3)[OF assms(1), of res0 s t tf res] that by simp
  have 2: "\<exists>xs. chain (parent pr) t xs \<and> last xs = s \<and> path_ge res (bottleneck pr) xs"
    if h: "build_residual mf = Inr res0 \<and> loop_state s t res0 (tf, res)
            \<and> bfs_augment res s t = Some (Inr (Some pr))" for res0 tf res pr
  proof -
    from h have b: "build_residual mf = Inr res0" and l: "loop_state s t res0 (tf, res)"
      and f: "bfs_augment res s t = Some (Inr (Some pr))" by auto
    show ?thesis using loop_state_path[OF build_residual_row_sum(1)[OF assms(1) b] l f] by simp
  qed
  from edmonds_karp_spec[OF assms, of t] obtain tf fm res where
    e: "edmonds_karp mf s t = Some (Inr (tf, fm, res))" and post: "ek_post ?g s t tf fm res"
    by blast
  note p = ek_postD[OF post]
  have 3: "0 \<le> c - cap res u v \<and> get2 fm u v = Some (c - cap res u v)"
    if h: "get2 ?g u v = Some c \<and> get2 ?g v u = None" for u v c
  proof -
    have cg: "cap ?g u v = c" "cap ?g v u = 0" using h by (auto simp: cap_def)
    have "cap res u v + cap res v u = cap ?g u v + cap ?g v u" using p(2) by blast
    then have "c - cap res u v = cap res v u" using cg by simp
    moreover have "0 \<le> cap res v u" using p(1) by blast
    ultimately have nn: "0 \<le> c - cap res u v" by simp
    have "get2 fm u v = Some (clamp0 (c - cap res u v))" using p(8) h by auto
    then show ?thesis using nn by (simp add: clamp0_def)
  qed
  have "\<exists>tf fm res. edmonds_karp mf s t = Some (Inr (tf, fm, res))
            \<and> (\<forall>a b. 0 \<le> cap res a b)
            \<and> (\<forall>u v c. get2 ?g u v = Some c \<and> get2 ?g v u = None
                  \<longrightarrow> 0 \<le> c - cap res u v \<and> get2 fm u v = Some (c - cap res u v))"
    using e p(1) 3 by blast
  then show ?thesis using 1 2 by blast
qed

theorem residual_nonneg_throughout_witness:
  "valid_graph (graph diamond) \<and> ''s'' \<in> graph_nodes (graph diamond)
   \<and> (\<exists>tf fm res. edmonds_karp diamond ''s'' ''t'' = Some (Inr (tf, fm, res))
         \<and> 0 \<le> 5 - cap res ''s'' ''a'' \<and> get2 fm ''s'' ''a'' = Some (5 - cap res ''s'' ''a''))"
proof -
  note th = residual_nonneg_throughout[OF valid_diamond s_in_diamond, of "''t''"]
  from th[THEN conjunct2, THEN conjunct2]
  obtain tf fm res where e: "edmonds_karp diamond ''s'' ''t'' = Some (Inr (tf, fm, res))"
    and c: "\<forall>u v c. get2 (graph diamond) u v = Some c \<and> get2 (graph diamond) v u = None
                  \<longrightarrow> 0 \<le> c - cap res u v \<and> get2 fm u v = Some (c - cap res u v)"
    by (elim exE conjE)
  have 1: "get2 (graph diamond) ''s'' ''a'' = Some 5" by (simp add: diamond_def get2_def)
  have 2: "get2 (graph diamond) ''a'' ''s'' = None" by (simp add: diamond_def get2_def)
  have 3: "0 \<le> 5 - cap res ''s'' ''a'' \<and> get2 fm ''s'' ''a'' = Some (5 - cap res ''s'' ''a'')"
    using c[rule_format, of "''s''" "''a''" 5] 1 2 by simp
  have "\<exists>tf fm res. edmonds_karp diamond ''s'' ''t'' = Some (Inr (tf, fm, res))
         \<and> 0 \<le> 5 - cap res ''s'' ''a'' \<and> get2 fm ''s'' ''a'' = Some (5 - cap res ''s'' ''a'')"
    apply (rule exI[of _ tf])
    apply (rule exI[of _ fm])
    apply (rule exI[of _ res])
    apply (intro conjI)
      apply (rule e)
     apply (rule 3[THEN conjunct1])
    apply (rule 3[THEN conjunct2])
    done
  with valid_diamond s_in_diamond show ?thesis by (intro conjI)
qed

lemma valid_single_edge: "valid_graph (graph single_edge)"
  by (simp add: single_edge_def valid_graph_def wf_dict2_def nonneg_caps_def keys_def)

lemma nodes_single_edge: "graph_nodes (graph single_edge) = {''s'', ''t''}"
  by (auto simp: single_edge_def graph_nodes_def inner_keys_def keys_def)

lemma s_in_single_edge: "''s'' \<in> graph_nodes (graph single_edge)"
  unfolding nodes_single_edge by simp

lemma x_notin_single_edge: "''x'' \<notin> graph_nodes (graph single_edge)"
  unfolding nodes_single_edge by simp

lemma ek_single_same:
  "edmonds_karp single_edge ''s'' ''s'' =
     Some (Inr (0, [(''s'', [(''t'', 0)])], [(''s'', [(''t'', 10)]), (''t'', [(''s'', 0)])]))"
  by code_simp

lemma ek_single_absent_sink:
  "edmonds_karp single_edge ''s'' ''x'' =
     Some (Inr (0, [(''s'', [(''t'', 0)])], [(''s'', [(''t'', 10)]), (''t'', [(''s'', 0)])]))"
  by code_simp

text \<open>
  Claim C5 as the spec states it fails: the source has no endpoint check.  On the graph
  with the single edge \<open>s\<rightarrow>t\<close> of capacity 10, the call with source and sink both \<open>s\<close>
  returns total flow 0 and raises nothing, and so does the call with the sink \<open>x\<close>,
  which is not a node of the graph.
\<close>

theorem no_endpoint_check_counterexample:
  "valid_graph (graph single_edge) \<and> ''s'' \<in> graph_nodes (graph single_edge)
   \<and> ''x'' \<notin> graph_nodes (graph single_edge)
   \<and> edmonds_karp single_edge ''s'' ''s'' =
        Some (Inr (0, [(''s'', [(''t'', 0)])], [(''s'', [(''t'', 10)]), (''t'', [(''s'', 0)])]))
   \<and> edmonds_karp single_edge ''s'' ''x'' =
        Some (Inr (0, [(''s'', [(''t'', 0)])], [(''s'', [(''t'', 10)]), (''t'', [(''s'', 0)])]))"
  using valid_single_edge s_in_single_edge x_notin_single_edge ek_single_same ek_single_absent_sink
  by (intro conjI)

text \<open>
  Claim C5, amended.  \<open>edmonds_karp\<close> does not validate its endpoints.  When the source is
  not a node of the graph, the first path search raises \<open>KeyError\<close> for the source at
  its first lookup \<open>res[u]\<close>.  When the source is a node and the sink equals the source,
  or the sink is not a node of the graph, the call raises nothing: it returns total flow
  0, the residual graph as \<open>_build_residual\<close> built it, and a flow matrix whose entries
  are all 0.
\<close>

theorem endpoints_not_validated:
  assumes "valid_graph (graph mf)"
  shows "(s \<notin> graph_nodes (graph mf) \<longrightarrow> edmonds_karp mf s t = Some (Inl (KeyError s)))
     \<and> (s \<in> graph_nodes (graph mf) \<and> (s = t \<or> t \<notin> graph_nodes (graph mf))
          \<longrightarrow> (\<exists>fm res. edmonds_karp mf s t = Some (Inr (0, fm, res))
                 \<and> build_residual mf = Inr res \<and> (\<forall>u v. cap fm u v = 0)))"
proof -
  let ?g = "graph mf"
  have 1: "edmonds_karp mf s t = Some (Inl (KeyError s))" if "s \<notin> graph_nodes ?g"
    by (rule edmonds_karp_absent_source[OF assms that])
  have 2: "\<exists>fm res. edmonds_karp mf s t = Some (Inr (0, fm, res))
                 \<and> build_residual mf = Inr res \<and> (\<forall>u v. cap fm u v = 0)"
    if h: "s \<in> graph_nodes ?g \<and> (s = t \<or> t \<notin> graph_nodes ?g)"
  proof -
    from h have sin: "s \<in> graph_nodes ?g" and st: "s = t \<or> t \<notin> graph_nodes ?g" by auto
    from edmonds_karp_spec[OF assms sin, of t] st obtain tf fm res where
      e: "edmonds_karp mf s t = Some (Inr (tf, fm, res))" and post: "ek_post ?g s t tf fm res"
      and z: "tf = 0" and b: "build_residual mf = Inr res"
      by blast
    from build_residual_ok[OF assms] b have c: "\<And>a b. cap res a b = cap ?g a b" by auto
    have "cap fm u v = 0" for u v
      unfolding cap_flow_matrix[OF ek_postD(8)[OF post]] c
      by (simp add: cap_def clamp0_def split: option.splits)
    then show ?thesis using e z b by blast
  qed
  show ?thesis using 1 2 by blast
qed

theorem endpoints_not_validated_witness:
  "valid_graph (graph single_edge) \<and> ''x'' \<notin> graph_nodes (graph single_edge)
   \<and> edmonds_karp single_edge ''x'' ''t'' = Some (Inl (KeyError ''x''))
   \<and> ''s'' \<in> graph_nodes (graph single_edge)
   \<and> (\<exists>fm res. edmonds_karp single_edge ''s'' ''s'' = Some (Inr (0, fm, res))
          \<and> build_residual single_edge = Inr res \<and> cap fm ''s'' ''t'' = 0)"
proof -
  note a = endpoints_not_validated[OF valid_single_edge, of "''x''" "''t''", THEN conjunct1, rule_format,
      OF x_notin_single_edge]
  have h: "''s'' \<in> graph_nodes (graph single_edge)
           \<and> (''s'' = ''s'' \<or> ''s'' \<notin> graph_nodes (graph single_edge))"
    using s_in_single_edge by (intro conjI disjI1 refl)
  from endpoints_not_validated[OF valid_single_edge, of "''s''" "''s''", THEN conjunct2, rule_format, OF h]
  obtain fm res where e: "edmonds_karp single_edge ''s'' ''s'' = Some (Inr (0, fm, res))"
    and b: "build_residual single_edge = Inr res" and z: "\<forall>u v. cap fm u v = 0"
    by (elim exE conjE)
  have z1: "cap fm ''s'' ''t'' = 0" using z by (elim allE)
  have "\<exists>fm res. edmonds_karp single_edge ''s'' ''s'' = Some (Inr (0, fm, res))
          \<and> build_residual single_edge = Inr res \<and> cap fm ''s'' ''t'' = 0"
    apply (rule exI[of _ fm])
    apply (rule exI[of _ res])
    apply (intro conjI)
      apply (rule e)
     apply (rule b)
    apply (rule z1)
    done
  with valid_single_edge x_notin_single_edge a s_in_single_edge show ?thesis by (intro conjI)
qed

section \<open>Maximum flow and minimum cut\<close>

lemma net_flow_le_cut:
  fixes y c :: "node \<Rightarrow> node \<Rightarrow> 'a::linordered_idom"
  assumes "finite V" "S \<subseteq> V" "s \<in> S" "t \<notin> S"
    "\<And>a b. y a b = - y b a" "\<And>n. n \<in> V \<Longrightarrow> n \<noteq> s \<Longrightarrow> n \<noteq> t \<Longrightarrow> (\<Sum>v \<in> V. y n v) = 0"
    "\<And>a b. y a b \<le> c a b"
  shows "(\<Sum>v \<in> V. y s v) \<le> (\<Sum>u \<in> S. \<Sum>v \<in> V - S. c u v)"
proof -
  have "(\<Sum>v \<in> V. y s v) = (\<Sum>u \<in> S. \<Sum>v \<in> V - S. y u v)"
    by (rule net_flow_across_cut[OF assms(1-6)])
  also have "\<dots> \<le> (\<Sum>u \<in> S. \<Sum>v \<in> V - S. c u v)"
    by (intro sum_mono assms(7))
  finally show ?thesis .
qed

lemma feasible_flow_le_cut:
  assumes "feasible_flow g s t f" "is_cut g s t S"
  shows "flow_value g s f \<le> real_of_int (cut_capacity g S)"
proof -
  let ?V = "graph_nodes g"
  let ?y = "\<lambda>a b. f a b - f b a"
  have S: "S \<subseteq> ?V" "s \<in> S" "t \<notin> S" using assms(2) by (auto simp: is_cut_def)
  have b: "\<And>u v. 0 \<le> f u v" "\<And>u v. f u v \<le> real_of_int (cap g u v)"
    and cons: "\<And>n. n \<in> ?V \<Longrightarrow> n \<noteq> s \<Longrightarrow> n \<noteq> t \<Longrightarrow> (\<Sum>u \<in> ?V. f u n) = (\<Sum>v \<in> ?V. f n v)"
    using assms(1) by (auto simp: feasible_flow_def)
  have anti: "\<And>a b. ?y a b = - ?y b a" by simp
  have c0: "(\<Sum>v \<in> ?V. ?y n v) = 0" if "n \<in> ?V" "n \<noteq> s" "n \<noteq> t" for n
    using cons[OF that] by (simp add: sum_subtractf)
  have le: "?y a b \<le> real_of_int (cap g a b)" for a b
    using b(1)[of b a] b(2)[of a b] by simp
  have "flow_value g s f = (\<Sum>v \<in> ?V. ?y s v)"
    by (simp add: flow_value_def sum_subtractf)
  also have "\<dots> \<le> (\<Sum>u \<in> S. \<Sum>v \<in> ?V - S. real_of_int (cap g u v))"
    by (rule net_flow_le_cut[OF finite_graph_nodes S anti c0 le])
  also have "\<dots> = real_of_int (cut_capacity g S)"
    by (simp add: cut_capacity_def)
  finally show ?thesis .
qed

lemma residual_cut:
  assumes post: "ek_post g s t tf fm res" and cut: "is_cut g s t S"
  shows "tf = (\<Sum>u \<in> S. \<Sum>v \<in> graph_nodes g - S. cap g u v - cap res u v)"
    and "tf \<le> cut_capacity g S"
proof -
  let ?V = "graph_nodes g"
  let ?x = "\<lambda>a b. cap g a b - cap res a b"
  note p = ek_postD[OF post]
  have S: "S \<subseteq> ?V" "s \<in> S" "t \<notin> S" using cut by (auto simp: is_cut_def)
  have anti: "?x a b = - ?x b a" for a b
  proof -
    have "cap res a b + cap res b a = cap g a b + cap g b a" using p(2) by blast
    then show ?thesis by simp
  qed
  have c0: "(\<Sum>v \<in> ?V. ?x n v) = 0" if "n \<in> ?V" "n \<noteq> s" "n \<noteq> t" for n
    using p(4) that by blast
  have "(\<Sum>v \<in> ?V. ?x s v) = (\<Sum>u \<in> S. \<Sum>v \<in> ?V - S. ?x u v)"
    by (rule net_flow_across_cut[OF finite_graph_nodes S anti c0])
  then show eq: "tf = (\<Sum>u \<in> S. \<Sum>v \<in> ?V - S. ?x u v)" using p(5) by simp
  have "?x a b \<le> cap g a b" for a b
  proof -
    have "0 \<le> cap res a b" using p(1) by blast
    then show ?thesis by simp
  qed
  then have "(\<Sum>u \<in> S. \<Sum>v \<in> ?V - S. ?x u v) \<le> (\<Sum>u \<in> S. \<Sum>v \<in> ?V - S. cap g u v)"
    by (intro sum_mono)
  then show "tf \<le> cut_capacity g S" using eq by (simp add: cut_capacity_def)
qed

lemma saturated_cut:
  assumes post: "ek_post g s t tf fm res" and "s \<in> graph_nodes g" "s \<noteq> t"
  shows "\<exists>S. is_cut g s t S \<and> cut_capacity g S = tf"
proof -
  let ?V = "graph_nodes g"
  note p = ek_postD[OF post]
  from p(7) assms(3) obtain P where P: "s \<in> P" "t \<notin> P" "closed res P" by auto
  let ?S = "P \<inter> ?V"
  have cut: "is_cut g s t ?S" using P assms(2) by (simp add: is_cut_def)
  have z: "cap res u v = 0" if "u \<in> ?S" "v \<in> ?V - ?S" for u v
  proof -
    have "u \<in> P" "v \<notin> P" using that by auto
    then have "\<not> 0 < cap res u v" using P(3) by (auto simp: closed_def)
    moreover have "0 \<le> cap res u v" using p(1) by blast
    ultimately show ?thesis by simp
  qed
  have "tf = (\<Sum>u \<in> ?S. \<Sum>v \<in> ?V - ?S. cap g u v - cap res u v)"
    by (rule residual_cut(1)[OF post cut])
  also have "\<dots> = (\<Sum>u \<in> ?S. \<Sum>v \<in> ?V - ?S. cap g u v)"
  proof (rule sum.cong[OF refl], rule sum.cong[OF refl])
    fix u v assume "u \<in> ?S" "v \<in> ?V - ?S"
    then show "cap g u v - cap res u v = cap g u v" using z by simp
  qed
  finally have "cut_capacity g ?S = tf" by (simp add: cut_capacity_def)
  then show ?thesis using cut by blast
qed

lemma flow_matrix_feasible:
  assumes valid: "valid_graph g" and post: "ek_post g s t tf fm res"
  shows "feasible_flow g s t (\<lambda>u v. real_of_int (cap fm u v))"
    and "flow_value g s (\<lambda>u v. real_of_int (cap fm u v)) = real_of_int tf"
proof -
  let ?V = "graph_nodes g"
  have wfg: "wf_dict2 g" and nng: "\<And>a b. 0 \<le> cap g a b"
    using valid by (simp_all add: valid_graph_def nonneg_caps_cap)
  note p = ek_postD[OF post]
  note bal = flow_matrix_balance[OF wfg p(1,2,3,8,9,10)]
  have rng: "0 \<le> cap fm u v \<and> cap fm u v \<le> cap g u v" for u v
  proof (cases "get2 g u v")
    case None
    then have "cap fm u v = 0" using cap_flow_matrix[OF p(8), of u v] by simp
    moreover have "cap g u v = 0" using None by (simp add: cap_def)
    ultimately show ?thesis by simp
  next
    case (Some c)
    then have f: "cap fm u v = clamp0 (c - cap res u v)"
      using cap_flow_matrix[OF p(8), of u v] by simp
    have cg: "cap g u v = c" using Some by (simp add: cap_def)
    have "0 \<le> cap res u v" using p(1) by blast
    moreover have "0 \<le> c" using nng[of u v] cg by simp
    ultimately show ?thesis unfolding f cg clamp0_def by simp
  qed
  have cons: "(\<Sum>u \<in> ?V. cap fm u n) = (\<Sum>v \<in> ?V. cap fm n v)" if "n \<noteq> s" "n \<noteq> t" for n
    using bal(3)[of n] p(4) that by (simp add: bal(1) bal(2))
  have "(\<Sum>u \<in> ?V. real_of_int (cap fm u n)) = (\<Sum>v \<in> ?V. real_of_int (cap fm n v))"
    if "n \<noteq> s" "n \<noteq> t" for n
    using cons[OF that] by (simp flip: of_int_sum)
  then show "feasible_flow g s t (\<lambda>u v. real_of_int (cap fm u v))"
    using rng by (simp add: feasible_flow_def)
  have "(\<Sum>v \<in> ?V. cap fm s v) - (\<Sum>u \<in> ?V. cap fm u s) = tf"
    using bal(3)[of s] p(5) by (simp add: bal(1) bal(2))
  then have "real_of_int ((\<Sum>v \<in> ?V. cap fm s v) - (\<Sum>u \<in> ?V. cap fm u s)) = real_of_int tf"
    by simp
  then show "flow_value g s (\<lambda>u v. real_of_int (cap fm u v)) = real_of_int tf"
    by (simp add: flow_value_def)
qed

text \<open>
  Claim C1.  On a graph with non-negative capacities and a source \<open>s\<close> that is a node
  and differs from the sink \<open>t\<close>, \<open>edmonds_karp(s, t)\<close> returns, the flow matrix it
  returns is a feasible flow whose value is \<open>total_flow\<close>, no feasible flow has a larger
  value, some cut that separates \<open>s\<close> from \<open>t\<close> has capacity \<open>total_flow\<close>, and no such
  cut has a smaller capacity: \<open>total_flow\<close> is the maximum flow value and the minimum
  cut capacity.
\<close>

theorem max_flow_min_cut:
  assumes "valid_graph (graph mf)" "s \<in> graph_nodes (graph mf)" "s \<noteq> t"
  shows "\<exists>tf fm res. edmonds_karp mf s t = Some (Inr (tf, fm, res))
     \<and> feasible_flow (graph mf) s t (\<lambda>u v. real_of_int (cap fm u v))
     \<and> flow_value (graph mf) s (\<lambda>u v. real_of_int (cap fm u v)) = real_of_int tf
     \<and> (\<forall>f. feasible_flow (graph mf) s t f \<longrightarrow> flow_value (graph mf) s f \<le> real_of_int tf)
     \<and> (\<exists>S. is_cut (graph mf) s t S \<and> cut_capacity (graph mf) S = tf)
     \<and> (\<forall>S. is_cut (graph mf) s t S \<longrightarrow> tf \<le> cut_capacity (graph mf) S)"
proof -
  let ?g = "graph mf"
  from edmonds_karp_spec[OF assms(1,2), of t] obtain tf fm res where
    e: "edmonds_karp mf s t = Some (Inr (tf, fm, res))" and post: "ek_post ?g s t tf fm res"
    by blast
  note ff = flow_matrix_feasible[OF assms(1) post]
  from saturated_cut[OF post assms(2,3)] obtain S where
    S: "is_cut ?g s t S" "cut_capacity ?g S = tf" by blast
  have mx: "flow_value ?g s f \<le> real_of_int tf" if "feasible_flow ?g s t f" for f
    using feasible_flow_le_cut[OF that S(1)] S(2) by simp
  have mn: "tf \<le> cut_capacity ?g S'" if "is_cut ?g s t S'" for S'
    by (rule residual_cut(2)[OF post that])
  have ex: "\<exists>S. is_cut ?g s t S \<and> cut_capacity ?g S = tf" using S by blast
  show ?thesis using e ff mx ex mn by blast
qed

lemma s_neq_t: "''s'' \<noteq> ''t''"
  by simp

lemma cut_diamond: "is_cut (graph diamond) ''s'' ''t'' {''s'', ''a''}"
  unfolding is_cut_def nodes_diamond by simp

lemma cut_capacity_diamond: "cut_capacity (graph diamond) {''s'', ''a''} = 8"
proof -
  have d: "graph_nodes (graph diamond) - {''s'', ''a''} = {''b'', ''t''}"
    unfolding nodes_diamond by auto
  show ?thesis
    unfolding cut_capacity_def d by (simp add: cap_def get2_def diamond_def)
qed

theorem max_flow_min_cut_witness:
  "valid_graph (graph diamond) \<and> ''s'' \<in> graph_nodes (graph diamond) \<and> ''s'' \<noteq> ''t''
   \<and> (\<exists>tf fm res. edmonds_karp diamond ''s'' ''t'' = Some (Inr (tf, fm, res)) \<and> tf = 8
         \<and> is_cut (graph diamond) ''s'' ''t'' {''s'', ''a''}
         \<and> tf \<le> cut_capacity (graph diamond) {''s'', ''a''}
         \<and> cut_capacity (graph diamond) {''s'', ''a''} = 8)"
proof -
  from max_flow_min_cut[OF valid_diamond s_in_diamond s_neq_t]
  obtain tf fm res where e: "edmonds_karp diamond ''s'' ''t'' = Some (Inr (tf, fm, res))"
    and mn: "\<forall>S. is_cut (graph diamond) ''s'' ''t'' S \<longrightarrow> tf \<le> cut_capacity (graph diamond) S"
    by (elim exE conjE)
  have tf: "tf = 8" using e unfolding ek_diamond by simp
  have le: "tf \<le> cut_capacity (graph diamond) {''s'', ''a''}"
    by (rule mn[rule_format, OF cut_diamond])
  have "\<exists>tf fm res. edmonds_karp diamond ''s'' ''t'' = Some (Inr (tf, fm, res)) \<and> tf = 8
         \<and> is_cut (graph diamond) ''s'' ''t'' {''s'', ''a''}
         \<and> tf \<le> cut_capacity (graph diamond) {''s'', ''a''}
         \<and> cut_capacity (graph diamond) {''s'', ''a''} = 8"
    apply (rule exI[of _ tf])
    apply (rule exI[of _ fm])
    apply (rule exI[of _ res])
    apply (intro conjI)
        apply (rule e)
       apply (rule tf)
      apply (rule cut_diamond)
     apply (rule le)
    apply (rule cut_capacity_diamond)
    done
  with valid_diamond s_in_diamond s_neq_t show ?thesis by (intro conjI)
qed

section \<open>The proportional decomposition\<close>

subsection \<open>The decomposition\<close>

lemma get2_put2: "get2 (put2 u v x d) a b = (if a = u \<and> b = v then Some x else get2 d a b)"
  by (auto simp: put2_def Let_def get2_def update_conv' map_of_setdefault split: option.splits)

lemma wf_dict2_put2:
  assumes "wf_dict2 d"
  shows "wf_dict2 (put2 u v x d)"
proof -
  let ?d1 = "setdefault u [] d"
  have w1: "wf_dict2 ?d1" using assms by (rule wf_dict2_setdefault)
  obtain row where row: "map_of ?d1 u = Some row"
    by (cases "map_of ?d1 u") (auto simp: map_of_setdefault split: option.splits)
  have "distinct (keys row)" by (rule wf_dict2_row[OF w1 row])
  then have "distinct (keys (AList.update v x row))" by (simp add: keys_def distinct_update)
  then have "wf_dict2 (AList.update u (AList.update v x row) ?d1)" by (rule wf_dict2_update[OF w1])
  then show ?thesis by (simp add: put2_def Let_def row)
qed

lemma wf_dict2_Nil: "wf_dict2 []"
  by (simp add: wf_dict2_def keys_def)

lemma foldl_put2_in:
  "wf_dict2 d \<Longrightarrow>
   wf_dict2 (foldl (\<lambda>d ((t, s), c). put2 s t (cap fm t s) d) d es)
   \<and> (\<forall>s t. get2 (foldl (\<lambda>d ((t, s), c). put2 s t (cap fm t s) d) d es) s t \<noteq> None
          \<longrightarrow> get2 d s t \<noteq> None \<or> (\<exists>c. ((t, s), c) \<in> set es))"
proof (induction es arbitrary: d)
  case Nil
  then show ?case by simp
next
  case (Cons e es)
  let ?F = "\<lambda>d ((t, s), c). put2 s t (cap fm t s) d"
  obtain t s c where e: "e = ((t, s), c)" by (cases e) auto
  let ?d' = "put2 s t (cap fm t s) d"
  have step: "foldl ?F d (e # es) = foldl ?F ?d' es" by (simp add: e)
  have w: "wf_dict2 ?d'" using Cons.prems by (rule wf_dict2_put2)
  from Cons.IH[OF w] have wf': "wf_dict2 (foldl ?F ?d' es)"
    and ks: "\<And>s' t'. get2 (foldl ?F ?d' es) s' t' \<noteq> None
                \<Longrightarrow> get2 ?d' s' t' \<noteq> None \<or> (\<exists>c. ((t', s'), c) \<in> set es)"
    by simp_all
  have "get2 d s' t' \<noteq> None \<or> (\<exists>c. ((t', s'), c) \<in> set (e # es))"
    if h: "get2 (foldl ?F ?d' es) s' t' \<noteq> None" for s' t'
  proof -
    from ks[OF h] show ?thesis
    proof
      assume "get2 ?d' s' t' \<noteq> None"
      then have "(s' = s \<and> t' = t) \<or> get2 d s' t' \<noteq> None"
        by (simp add: get2_put2 split: if_splits)
      then show ?thesis
      proof
        assume "s' = s \<and> t' = t"
        then have "((t', s'), c) \<in> set (e # es)" by (simp add: e)
        then show ?thesis by (intro disjI2 exI)
      next
        assume "get2 d s' t' \<noteq> None"
        then show ?thesis by (rule disjI1)
      qed
    next
      assume "\<exists>c. ((t', s'), c) \<in> set es"
      then obtain c' where "((t', s'), c') \<in> set es" by (elim exE)
      then have "((t', s'), c') \<in> set (e # es)" by simp
      then show ?thesis by (intro disjI2 exI)
    qed
  qed
  then show ?case unfolding step using wf' by (intro conjI allI impI)
qed

lemma wf_in_T_to_S: "wf_dict2 (in_T_to_S es fm)"
  unfolding in_T_to_S_def using foldl_put2_in[OF wf_dict2_Nil, of fm es] by simp

lemma in_T_to_S_keys:
  "get2 (in_T_to_S es fm) s t \<noteq> None \<Longrightarrow> \<exists>c. ((t, s), c) \<in> set es"
  unfolding in_T_to_S_def using foldl_put2_in[OF wf_dict2_Nil, of fm es]
  by (auto simp: get2_def)

lemma foldl_put2_out:
  "wf_dict2 d \<Longrightarrow> wf_dict2 (foldl (\<lambda>d ((s, m), c). put2 s m (cap fm s m) d) d es)"
proof (induction es arbitrary: d)
  case Nil
  then show ?case by simp
next
  case (Cons e es)
  obtain s m c where e: "e = ((s, m), c)" by (cases e) auto
  have w: "wf_dict2 (put2 s m (cap fm s m) d)" using Cons.prems by (rule wf_dict2_put2)
  from Cons.IH[OF w] show ?case by (simp add: e)
qed

lemma wf_out_S_to_M: "wf_dict2 (out_S_to_M es fm)"
  unfolding out_S_to_M_def by (rule foldl_put2_out[OF wf_dict2_Nil])

lemma entry_put2: "entry (put2 t m x tbl) a b = (if a = t \<and> b = m then x else entry tbl a b)"
  by (auto simp: put2_def Let_def entry_def update_conv' map_of_setdefault split: option.splits)

lemma entry_credit:
  "distinct (map fst sh) \<Longrightarrow>
   entry (credit m f sh tbl) a b =
     entry tbl a b + (if b = m then (case map_of sh a of None \<Rightarrow> 0 | Some x \<Rightarrow> real_of_int f * x) else 0)"
proof (induction sh arbitrary: tbl)
  case Nil
  then show ?case by simp
next
  case (Cons p sh)
  obtain t x where p: "p = (t, x)" by (cases p)
  have d: "distinct (map fst sh)" and tn: "map_of sh t = None"
    using Cons.prems by (auto simp: p map_of_eq_None_iff)
  show ?case
    using tn by (auto simp: p Cons.IH[OF d] entry_put2 split: option.splits)
qed

lemma entry_spread:
  "distinct (map fst row) \<Longrightarrow> distinct (map fst sh) \<Longrightarrow>
   entry (spread row sh tbl) a b =
     entry tbl a b + (case map_of sh a of None \<Rightarrow> 0
                      | Some x \<Rightarrow> (case map_of row b of None \<Rightarrow> 0 | Some f \<Rightarrow> real_of_int f * x))"
proof (induction row arbitrary: tbl)
  case Nil
  then show ?case by (simp split: option.splits)
next
  case (Cons p row)
  obtain m f where p: "p = (m, f)" by (cases p)
  have d: "distinct (map fst row)" and mn: "map_of row m = None"
    using Cons.prems(1) by (auto simp: p map_of_eq_None_iff)
  show ?case
    using mn by (auto simp: p Cons.IH[OF d Cons.prems(2)] entry_credit[OF Cons.prems(2)] split: option.splits)
qed

lemma shares_fold:
  "map_of (foldl (\<lambda>d t. AList.update t (g t) d) d0 ts) a = (if a \<in> set ts then Some (g a) else map_of d0 a)"
  "distinct (map fst d0) \<Longrightarrow> distinct (map fst (foldl (\<lambda>d t. AList.update t (g t) d) d0 ts))"
proof (induction ts arbitrary: d0)
  case Nil
  { case 1 show ?case by simp }
  { case 2 then show ?case by simp }
next
  case (Cons t ts)
  { case 1 show ?case by (auto simp: Cons.IH(1) update_conv') }
  { case 2 then show ?case by (simp add: Cons.IH(2) distinct_update) }
qed

lemma map_of_shares:
  "map_of (shares ts ins s tot) a =
     (if a \<in> set ts then Some (real_of_int (cap ins s a) / real_of_int tot) else None)"
  unfolding shares_def by (simp add: shares_fold(1))

lemma distinct_shares: "distinct (map fst (shares ts ins s tot))"
  unfolding shares_def by (rule shares_fold(2)) simp

lemma in_total_S_row_sum: "in_total_S ins s = row_sum ins s"
  by (simp add: in_total_S_def row_sum_def)

lemma entry_attribute:
  assumes "wf_dict2 outs" "in_total_S ins h \<noteq> 0"
  shows "entry (attribute_warehouse ts ins outs h tbl) u d =
     entry tbl u d + (if u \<in> set ts
        then real_of_int (cap outs h d) * (real_of_int (cap ins h u) / real_of_int (in_total_S ins h))
        else 0)"
proof -
  let ?row = "case map_of outs h of None \<Rightarrow> [] | Some r \<Rightarrow> r"
  have dr: "distinct (map fst ?row)"
    using wf_dict2_row[OF assms(1), of h] by (auto simp: keys_def split: option.splits)
  have c: "(case map_of ?row d of None \<Rightarrow> 0 | Some f \<Rightarrow> real_of_int f * x) = real_of_int (cap outs h d) * x" for x
    by (auto simp: cap_def get2_def split: option.splits)
  show ?thesis
    using assms(2)
    by (simp add: attribute_warehouse_def Let_def entry_spread[OF dr distinct_shares] map_of_shares c)
qed

lemma row_keys_get2: "v \<in> set (row_keys d s) \<longleftrightarrow> get2 d s v \<noteq> None"
  by (cases "map_of d s") (simp_all add: row_keys_def get2_def in_keys_iff)

lemma row_sum_over_keys:
  assumes "wf_dict2 d" "set (row_keys d s) \<subseteq> V" "finite V"
  shows "row_sum d s = (\<Sum>v \<in> V. cap d s v)"
proof (rule row_sum_as_sum[OF assms(1,3)])
  show "{v. get2 d s v \<noteq> None} \<subseteq> V" using assms(2) by (auto simp: row_keys_get2)
qed

lemma attribution_total:
  assumes "wf_dict2 ins" "wf_dict2 outs" "in_total_S ins h \<noteq> 0" "set (row_keys ins h) \<subseteq> set ts"
  shows "(\<Sum>u \<in> set ts. \<Sum>d \<in> set (row_keys outs h).
            entry (attribute_warehouse ts ins outs h tbl) u d - entry tbl u d)
         = real_of_int (row_sum outs h)"
proof -
  let ?tot = "real_of_int (in_total_S ins h)"
  let ?ci = "\<lambda>u. real_of_int (cap ins h u)" and ?co = "\<lambda>d. real_of_int (cap outs h d)"
  have tot: "?tot \<noteq> 0" using assms(3) by simp
  have si: "(\<Sum>u \<in> set ts. ?ci u) = ?tot"
    using row_sum_over_keys[OF assms(1,4)] by (simp add: in_total_S_row_sum)
  have so: "(\<Sum>d \<in> set (row_keys outs h). ?co d) = real_of_int (row_sum outs h)"
    using row_sum_over_keys[OF assms(2) subset_refl, of h] by simp
  have "(\<Sum>u \<in> set ts. \<Sum>d \<in> set (row_keys outs h).
            entry (attribute_warehouse ts ins outs h tbl) u d - entry tbl u d)
      = (\<Sum>u \<in> set ts. \<Sum>d \<in> set (row_keys outs h). ?co d * (?ci u / ?tot))"
    by (intro sum.cong refl) (simp add: entry_attribute[OF assms(2,3)])
  also have "\<dots> = (\<Sum>u \<in> set ts. (\<Sum>d \<in> set (row_keys outs h). ?co d) * (?ci u / ?tot))"
    by (simp only: sum_distrib_right)
  also have "\<dots> = (\<Sum>d \<in> set (row_keys outs h). ?co d) * (\<Sum>u \<in> set ts. ?ci u / ?tot)"
    by (simp only: sum_distrib_left)
  also have "(\<Sum>u \<in> set ts. ?ci u / ?tot) = (\<Sum>u \<in> set ts. ?ci u) / ?tot"
    by (simp only: sum_divide_distrib)
  also have "\<dots> = 1" using tot by (simp add: si)
  finally show ?thesis by (simp add: so)
qed

lemma decompose_scenario:
  "decompose [''X'', ''Y''] [''H''] [((''X'', ''H''), 6), ((''Y'', ''H''), 4)]
     [((''H'', ''P''), 7), ((''H'', ''Q''), 3)]
     [(''X'', [(''H'', 6)]), (''Y'', [(''H'', 4)]), (''H'', [(''P'', 7), (''Q'', 3)])]
   = [(''X'', [(''P'', 4.2), (''Q'', 1.8)]), (''Y'', [(''P'', 2.8), (''Q'', 1.2)])]"
  by (simp add: decompose_def in_T_to_S_def out_S_to_M_def attribute_warehouse_def in_total_S_def
      shares_def put2_def setdefault_def cap_def get2_def entry_def Let_def)

text \<open>
  Claim C6.  One iteration of the decomposition, for the mid-tier node \<open>h\<close>: when the
  total inflow of \<open>h\<close> is 0 the table is left as it was; otherwise the entry of every
  pair of an upstream node \<open>u\<close> of \<open>terminals\<close> and a node \<open>d\<close> grows by the realized
  flow on \<open>h\<rightarrow>d\<close> times \<open>inflow[h][u] / total_in[h]\<close>, and no other entry changes.  When
  every upstream node that feeds \<open>h\<close> is one of \<open>terminals\<close>, the amounts attributed at
  \<open>h\<close> sum, over all pairs, to the total realized outflow of \<open>h\<close>.  In the scenario with
  inflow 6 from X and 4 from Y and outflow 7 to P and 3 to Q the table is X\<rightarrow>P = 4.2,
  X\<rightarrow>Q = 1.8, Y\<rightarrow>P = 2.8, Y\<rightarrow>Q = 1.2.  The numbers are real numbers: the statement
  is about exact arithmetic, not about floating-point rounding.
\<close>

theorem proportional_attribution:
  assumes "wf_dict2 ins" "wf_dict2 outs"
  shows "(in_total_S ins h = 0 \<longrightarrow> attribute_warehouse terminals ins outs h tbl = tbl)
     \<and> (in_total_S ins h \<noteq> 0 \<longrightarrow>
          (\<forall>u d. entry (attribute_warehouse terminals ins outs h tbl) u d =
             entry tbl u d + (if u \<in> set terminals
                then real_of_int (cap outs h d) * (real_of_int (cap ins h u) / real_of_int (in_total_S ins h))
                else 0)))
     \<and> (in_total_S ins h \<noteq> 0 \<and> set (row_keys ins h) \<subseteq> set terminals \<longrightarrow>
          (\<Sum>u \<in> set terminals. \<Sum>d \<in> set (row_keys outs h).
              entry (attribute_warehouse terminals ins outs h tbl) u d - entry tbl u d)
          = real_of_int (row_sum outs h))
     \<and> decompose [''X'', ''Y''] [''H''] [((''X'', ''H''), 6), ((''Y'', ''H''), 4)]
          [((''H'', ''P''), 7), ((''H'', ''Q''), 3)]
          [(''X'', [(''H'', 6)]), (''Y'', [(''H'', 4)]), (''H'', [(''P'', 7), (''Q'', 3)])]
        = [(''X'', [(''P'', 4.2), (''Q'', 1.8)]), (''Y'', [(''P'', 2.8), (''Q'', 1.2)])]"
proof (intro conjI impI allI)
  assume "in_total_S ins h = 0"
  then show "attribute_warehouse terminals ins outs h tbl = tbl"
    by (simp add: attribute_warehouse_def)
next
  fix u d assume "in_total_S ins h \<noteq> 0"
  then show "entry (attribute_warehouse terminals ins outs h tbl) u d =
             entry tbl u d + (if u \<in> set terminals
                then real_of_int (cap outs h d) * (real_of_int (cap ins h u) / real_of_int (in_total_S ins h))
                else 0)"
    by (rule entry_attribute[OF assms(2)])
next
  assume "in_total_S ins h \<noteq> 0 \<and> set (row_keys ins h) \<subseteq> set terminals"
  then show "(\<Sum>u \<in> set terminals. \<Sum>d \<in> set (row_keys outs h).
              entry (attribute_warehouse terminals ins outs h tbl) u d - entry tbl u d)
          = real_of_int (row_sum outs h)"
    using attribution_total[OF assms] by simp
next
  show "decompose [''X'', ''Y''] [''H''] [((''X'', ''H''), 6), ((''Y'', ''H''), 4)]
          [((''H'', ''P''), 7), ((''H'', ''Q''), 3)]
          [(''X'', [(''H'', 6)]), (''Y'', [(''H'', 4)]), (''H'', [(''P'', 7), (''Q'', 3)])]
        = [(''X'', [(''P'', 4.2), (''Q'', 1.8)]), (''Y'', [(''P'', 2.8), (''Q'', 1.2)])]"
    by (rule decompose_scenario)
qed

theorem proportional_attribution_witness:
  "wf_dict2 [(''H'', [(''X'', 6), (''Y'', 4)])] \<and> wf_dict2 [(''H'', [(''P'', 7), (''Q'', 3)])]
   \<and> in_total_S [(''H'', [(''X'', 6), (''Y'', 4)])] ''H'' = 10
   \<and> entry (attribute_warehouse [''X'', ''Y''] [(''H'', [(''X'', 6), (''Y'', 4)])]
               [(''H'', [(''P'', 7), (''Q'', 3)])] ''H'' []) ''X'' ''P'' = 4.2
   \<and> entry (attribute_warehouse [''X'', ''Y''] [(''H'', [(''X'', 6), (''Y'', 4)])]
               [(''H'', [(''P'', 7), (''Q'', 3)])] ''H'' []) ''Y'' ''Q'' = 1.2"
proof -
  let ?ins = "[(''H'', [(''X'', 6), (''Y'', 4)])] :: graph"
  let ?outs = "[(''H'', [(''P'', 7), (''Q'', 3)])] :: graph"
  have wi: "wf_dict2 ?ins" by (simp add: wf_dict2_def keys_def)
  have wo: "wf_dict2 ?outs" by (simp add: wf_dict2_def keys_def)
  have tot: "in_total_S ?ins ''H'' = 10" by (simp add: in_total_S_def)
  have ne: "in_total_S ?ins ''H'' \<noteq> 0" unfolding tot by simp
  note th = proportional_attribution[OF wi wo, of "''H''" "[''X'', ''Y'']" "[]",
      THEN conjunct2, THEN conjunct1, rule_format, OF ne]
  have 1: "entry (attribute_warehouse [''X'', ''Y''] ?ins ?outs ''H'' []) ''X'' ''P'' = 4.2"
    unfolding th[of "''X''" "''P''"] tot by (simp add: entry_def cap_def get2_def)
  have 2: "entry (attribute_warehouse [''X'', ''Y''] ?ins ?outs ''H'' []) ''Y'' ''Q'' = 1.2"
    unfolding th[of "''Y''" "''Q''"] tot by (simp add: entry_def cap_def get2_def)
  show ?thesis using wi wo tot 1 2 by (intro conjI)
qed

section \<open>Graphs built by add_edge\<close>

lemma nonneg_caps_setdefault: "nonneg_caps g \<Longrightarrow> nonneg_caps (setdefault k [] g)"
  by (simp add: nonneg_caps_def setdefault_def split: option.splits)

lemma nonneg_caps_row:
  "nonneg_caps g \<Longrightarrow> map_of g u = Some row \<Longrightarrow> list_all (\<lambda>(v, c). 0 \<le> c) row"
  by (auto simp: nonneg_caps_def list_all_iff dest!: map_of_SomeD)

text \<open>
  The hypotheses of the theorems about the solver hold in every state that \<open>add_edge\<close>
  reaches from the empty network: the graph stays a dictionary of dictionaries with
  non-negative capacities, and \<open>self.nodes\<close> stays the set of the nodes of the graph.
  The example networks are such states.
\<close>

lemma valid_graph_init: "valid_graph (graph init)"
  by (simp add: init_def valid_graph_def wf_dict2_def nonneg_caps_def keys_def)

lemma add_edge_valid:
  assumes "valid_graph (graph mf)" "add_edge u v c mf = (r, mf')"
  shows "valid_graph (graph mf')"
proof (cases "c < 0")
  case True
  then show ?thesis using assms by (simp add: add_edge_def)
next
  case False
  then have c: "0 \<le> c" by simp
  have wf: "wf_dict2 (graph mf)" and nn: "nonneg_caps (graph mf)"
    using assms(1) by (simp_all add: valid_graph_def)
  define g1 where "g1 = setdefault u [] (graph mf)"
  define row where "row = (case map_of g1 u of None \<Rightarrow> [] | Some r \<Rightarrow> r)"
  define old where "old = (case map_of row v of None \<Rightarrow> (0::int) | Some x \<Rightarrow> x)"
  have g1u: "map_of g1 u = Some row"
    by (simp add: g1_def row_def map_of_setdefault split: option.splits)
  have nn1: "nonneg_caps g1" using nn by (simp add: g1_def nonneg_caps_setdefault)
  have nrow: "list_all (\<lambda>(v, c). 0 \<le> c) row" by (rule nonneg_caps_row[OF nn1 g1u])
  have "0 \<le> old"
    using nrow by (auto simp: old_def list_all_iff split: option.splits dest!: map_of_SomeD)
  then have "0 \<le> old + c" using c by simp
  with nrow have r': "list_all (\<lambda>(v, c). 0 \<le> c) (AList.update v (old + c) row)"
    by (rule list_all_update[where P = "\<lambda>c. (0::int) \<le> c"])
  have "nonneg_caps (AList.update u (AList.update v (old + c) row) g1)"
    unfolding nonneg_caps_def
    by (rule list_all_update[where P = "list_all (\<lambda>(v, c). (0::int) \<le> c)",
          OF nn1[unfolded nonneg_caps_def] r'])
  then have nn3: "nonneg_caps (setdefault v [] (AList.update u (AList.update v (old + c) row) g1))"
    by (rule nonneg_caps_setdefault)
  have g: "graph mf' = setdefault v [] (AList.update u (AList.update v (old + c) row) g1)"
    using assms(2) c by (auto simp: add_edge_def Let_def g1_def row_def old_def)
  have "wf_dict2 (graph mf')" using add_edge_graph[OF c assms(2)] wf by simp
  then show ?thesis using nn3 g by (simp add: valid_graph_def)
qed

lemma diamond_built:
  "snd (add_edge ''b'' ''t'' 10 (snd (add_edge ''a'' ''t'' 3
     (snd (add_edge ''s'' ''b'' 5 (snd (add_edge ''s'' ''a'' 5 init))))))) = diamond"
  by (auto simp: add_edge_def init_def diamond_def setdefault_def Let_def)

lemma antiparallel_built:
  "snd (add_edge ''a'' ''t'' 5 (snd (add_edge ''a'' ''b'' 3
     (snd (add_edge ''b'' ''a'' 5 (snd (add_edge ''s'' ''b'' 5 init))))))) = antiparallel"
  by (auto simp: add_edge_def init_def antiparallel_def setdefault_def Let_def)

lemma single_edge_built: "snd (add_edge ''s'' ''t'' 10 init) = single_edge"
  by (auto simp: add_edge_def init_def single_edge_def setdefault_def Let_def)

lemma add_edge_nodes:
  assumes "nodes mf = graph_nodes (graph mf)" "wf_dict2 (graph mf)" "0 \<le> c"
    "add_edge u v c mf = (r, mf')"
  shows "nodes mf' = graph_nodes (graph mf')"
proof -
  define g1 where "g1 = setdefault u [] (graph mf)"
  define row where "row = (case map_of g1 u of None \<Rightarrow> [] | Some r \<Rightarrow> r)"
  define x where "x = (case map_of row v of None \<Rightarrow> (0::int) | Some x \<Rightarrow> x) + c"
  define g2 where "g2 = AList.update u (AList.update v x row) g1"
  have g1u: "map_of g1 u = Some row"
    by (simp add: g1_def row_def map_of_setdefault split: option.splits)
  have g: "graph mf' = setdefault v [] g2" and n: "nodes mf' = insert v (insert u (nodes mf))"
    using assms(3,4) by (auto simp: add_edge_def Let_def g1_def row_def x_def g2_def)
  have wf': "wf_dict2 (graph mf')" using add_edge_graph[OF assms(3,4)] assms(2) by simp
  have get: "get2 (graph mf') a b = (if a = u \<and> b = v then Some x else get2 (graph mf) a b)" for a b
    unfolding g g2_def
    by (auto simp: get2_def map_of_setdefault update_conv' g1u row_def g1_def split: option.splits)
  have k: "set (keys (graph mf')) = insert v (insert u (set (keys (graph mf))))"
    unfolding g g2_def g1_def by (auto simp: keys_setdefault keys_update split: if_splits)
  have "inner_keys (graph mf') = insert v (inner_keys (graph mf))"
    unfolding inner_keys_get2[OF wf'] inner_keys_get2[OF assms(2)] by (auto simp: get)
  then show ?thesis using k n assms(1) by (auto simp: graph_nodes_def)
qed

lemma nodes_init: "nodes init = graph_nodes (graph init)"
  by (simp add: init_def graph_nodes_def inner_keys_def keys_def)

end
